theory Spec2Isabelle
  imports Complex_Main
begin

section \<open>Vocabulary highlighting in the reader pane\<close>

text \<open>
  This theory embeds the vocabulary-highlight code of the reader pane
  (\<^verbatim>\<open>src/unnamed/part_003\<close>, lines 403-446 and 487-780): the functions
  \<^verbatim>\<open>applyHighlights\<close>, \<^verbatim>\<open>handleRelocated\<close>, \<^verbatim>\<open>clearVocabularyHighlights\<close>,
  \<^verbatim>\<open>escapeRegExp\<close> and \<^verbatim>\<open>highlightVocabularyInDocument\<close> with its nested
  \<^verbatim>\<open>handleClick\<close>.

  Conventions of the embedding.
  \<^item> A JavaScript string is a \<open>string\<close>: a list of code units. Isabelle characters have
    eight bits, so the model covers the strings whose code units are below 256 (Latin-1);
    case mapping, white space and word characters are those of ECMAScript on that range.
  \<^item> A DOM node is a value of the datatype \<open>node\<close>; the content document is the list of
    the children of its \<^verbatim>\<open>body\<close> element together with the click-listener state that
    the code keeps on the document object.
  \<^item> The browser interfaces the code calls (\<^verbatim>\<open>RegExp\<close>, \<^verbatim>\<open>Node.normalize\<close>,
    \<^verbatim>\<open>textContent\<close>, \<^verbatim>\<open>querySelectorAll\<close>, \<^verbatim>\<open>TreeWalker\<close>, \<^verbatim>\<open>addEventListener\<close>,
    \<^verbatim>\<open>setTimeout\<close>) are modelled by functions that follow their standards.
\<close>

subsection \<open>Strings\<close>

definition isWordChar :: "char \<Rightarrow> bool" where
  \<comment> \<open>The class \<^verbatim>\<open>\w\<close> of a regular expression without the \<^verbatim>\<open>u\<close> flag: \<^verbatim>\<open>[A-Za-z0-9_]\<close>.\<close>
  "isWordChar c =
     (let n = (of_char c :: nat)
      in (48 \<le> n \<and> n \<le> 57) \<or> (65 \<le> n \<and> n \<le> 90) \<or> n = 95 \<or> (97 \<le> n \<and> n \<le> 122))"

definition isWhiteSpace :: "char \<Rightarrow> bool" where
  \<comment> \<open>White space and line terminators below 256: TAB, LF, VT, FF, CR, SP, NBSP.\<close>
  "isWhiteSpace c = ((of_char c :: nat) \<in> {9, 10, 11, 12, 13, 32, 160})"

definition trim :: "string \<Rightarrow> string" where
  \<comment> \<open>\<^verbatim>\<open>String.prototype.trim\<close>\<close>
  "trim s = rev (dropWhile isWhiteSpace (rev (dropWhile isWhiteSpace s)))"

definition toLowerChar :: "char \<Rightarrow> char" where
  \<comment> \<open>Lower case of one code unit below 256: \<^verbatim>\<open>A-Z\<close> and U+00C0..U+00DE without U+00D7.\<close>
  "toLowerChar c =
     (let n = (of_char c :: nat)
      in if (65 \<le> n \<and> n \<le> 90) \<or> (192 \<le> n \<and> n \<le> 222 \<and> n \<noteq> 215)
         then char_of (n + 32) else c)"

definition toLowerCase :: "string \<Rightarrow> string" where
  \<comment> \<open>\<^verbatim>\<open>String.prototype.toLowerCase\<close>\<close>
  "toLowerCase s = map toLowerChar s"

definition canonicalize :: "char \<Rightarrow> char" where
  \<comment> \<open>\<^verbatim>\<open>Canonicalize\<close> of a regular expression with the \<^verbatim>\<open>i\<close> flag and without the
      \<^verbatim>\<open>u\<close> flag: the upper case of the code unit when that is one code unit. Below 256
      the letters \<^verbatim>\<open>a-z\<close> and U+00E0..U+00FE without U+00F7 change; U+00B5 and U+00FF map
      above 255, where no other code unit below 256 maps, and U+00DF is kept.\<close>
  "canonicalize c =
     (let n = (of_char c :: nat)
      in if (97 \<le> n \<and> n \<le> 122) \<or> (224 \<le> n \<and> n \<le> 254 \<and> n \<noteq> 247)
         then char_of (n - 32) else c)"

subsection \<open>The vocabulary and the compiled words\<close>

record VocabItem =
  word :: string
  explanation :: "string option"
  "context" :: "string option"

definition set_add :: "'a list \<Rightarrow> 'a \<Rightarrow> 'a list" where
  \<comment> \<open>\<^verbatim>\<open>Set.prototype.add\<close> on the insertion-ordered entries of a \<^verbatim>\<open>Set\<close>\<close>
  "set_add entries x = (if x \<in> set entries then entries else entries @ [x])"

definition array_from_set :: "'a list \<Rightarrow> 'a list" where
  \<comment> \<open>\<^verbatim>\<open>Array.from(new Set(xs))\<close>: the first occurrence of every value, in order\<close>
  "array_from_set xs = foldl set_add [] xs"

definition vocabulary_words :: "VocabItem list \<Rightarrow> string list" where
  \<comment> \<open>\<^verbatim>\<open>words\<close>, lines 519-525\<close>
  "vocabulary_words vocabulary =
     array_from_set (filter (\<lambda>w. length w > 0) (map (\<lambda>v. trim (word v)) vocabulary))"

definition syntaxCharacters :: "char list" where
  \<comment> \<open>the characters of the class in \<^verbatim>\<open>escapeRegExp\<close>: \<^verbatim>\<open>. * + ? ^ $ { } ( ) | [ ] \\<close>\<close>
  "syntaxCharacters = ''.*+?^${}()|[]'' @ [CHR 0x5C]"

definition escapeRegExp :: "string \<Rightarrow> string" where
  \<comment> \<open>\<^verbatim>\<open>str.replace(/[.*+?^${}()|[\]\\]/g, '\\$&')\<close>\<close>
  "escapeRegExp str =
     concat (map (\<lambda>c. if c \<in> set syntaxCharacters then [CHR 0x5C, c] else [c]) str)"

fun join :: "string \<Rightarrow> string list \<Rightarrow> string" where
  \<comment> \<open>\<^verbatim>\<open>Array.prototype.join\<close>\<close>
  "join sep [] = []"
| "join sep [x] = x"
| "join sep (x # y # ys) = x @ sep @ join sep (y # ys)"

definition pattern_source :: "string list \<Rightarrow> string" where
  \<comment> \<open>\<^verbatim>\<open>pattern\<close>, line 529\<close>
  "pattern_source ws = join ''|'' (map escapeRegExp ws)"

subsection \<open>The regular expression\<close>

text \<open>
  The expression of line 530 is \<^verbatim>\<open>\b(pattern)\b\<close> with the flags \<^verbatim>\<open>g\<close> and \<^verbatim>\<open>i\<close>.
  \<open>read_alternatives\<close> reads \<^verbatim>\<open>pattern\<close> the way the pattern grammar does when every
  alternative is a sequence of literal characters: a character outside the syntax characters
  stands for itself, a backslash before a syntax character stands for that character,
  \<^verbatim>\<open>|\<close> separates two alternatives. Any other use of a syntax character is outside this
  fragment of the grammar and gives \<open>None\<close>; \<open>read_alternatives_pattern_source\<close> below
  shows that the patterns the code builds stay inside it.
\<close>

fun read_alternatives :: "string \<Rightarrow> string \<Rightarrow> string list option" where
  "read_alternatives cur [] = Some [cur]"
| "read_alternatives cur (c # cs) =
     (if c = CHR 0x5C then
        (case cs of
           [] \<Rightarrow> None
         | d # ds \<Rightarrow> if d \<in> set syntaxCharacters then read_alternatives (cur @ [d]) ds else None)
      else if c = CHR ''|'' then map_option ((#) cur) (read_alternatives [] cs)
      else if c \<in> set syntaxCharacters then None
      else read_alternatives (cur @ [c]) cs)"

definition isWordBoundary :: "string \<Rightarrow> nat \<Rightarrow> bool" where
  \<comment> \<open>the assertion \<^verbatim>\<open>\b\<close> at index \<open>i\<close>: exactly one of the code units before and at
      \<open>i\<close> is a word character (a missing code unit is none)\<close>
  "isWordBoundary text i =
     (let a = (0 < i \<and> i \<le> length text \<and> isWordChar (text ! (i - 1)));
          b = (i < length text \<and> isWordChar (text ! i))
      in a \<noteq> b)"

definition literal_matches_at :: "string \<Rightarrow> string \<Rightarrow> nat \<Rightarrow> bool" where
  \<comment> \<open>the literal \<open>w\<close> matches the code units of \<open>text\<close> from index \<open>i\<close>, ignoring case\<close>
  "literal_matches_at w text i =
     (i + length w \<le> length text \<and>
      map canonicalize (take (length w) (drop i text)) = map canonicalize w)"

fun first_alternative :: "string list \<Rightarrow> string \<Rightarrow> nat \<Rightarrow> nat option" where
  \<comment> \<open>the disjunction followed by the closing \<^verbatim>\<open>\b\<close>: the alternatives are tried from
      left to right, and one that matches is given up when no word boundary follows it;
      the result is the end index of the match\<close>
  "first_alternative [] text i = None"
| "first_alternative (w # ws) text i =
     (if literal_matches_at w text i \<and> isWordBoundary text (i + length w)
      then Some (i + length w)
      else first_alternative ws text i)"

definition match_at :: "string list \<Rightarrow> string \<Rightarrow> nat \<Rightarrow> nat option" where
  "match_at alts text i = (if isWordBoundary text i then first_alternative alts text i else None)"

function regex_scan :: "string list \<Rightarrow> string \<Rightarrow> nat \<Rightarrow> (nat \<times> nat) option" where
  \<comment> \<open>the search of \<^verbatim>\<open>RegExpBuiltinExec\<close>: the first index from \<open>i\<close> on at which the
      expression matches, with the end index of the match\<close>
  "regex_scan alts text i =
     (if length text < i then None
      else (case match_at alts text i of
              Some e \<Rightarrow> Some (i, e)
            | None \<Rightarrow> regex_scan alts text (Suc i)))"
  by pat_completeness auto
termination
  by (relation "measure (\<lambda>(alts, text, i). Suc (length text) - i)") auto

definition regex_exec :: "string list \<Rightarrow> string \<Rightarrow> nat \<Rightarrow> (nat \<times> string) option \<times> nat" where
  \<comment> \<open>\<^verbatim>\<open>regex.exec(text)\<close> with \<^verbatim>\<open>regex.lastIndex = lastIndex\<close>: the index and the text
      of the match, if any, and the new value of \<^verbatim>\<open>regex.lastIndex\<close>\<close>
  "regex_exec alts text lastIndex =
     (case regex_scan alts text lastIndex of
        None \<Rightarrow> (None, 0)
      | Some (i, e) \<Rightarrow> (Some (i, take (e - i) (drop i text)), e))"

definition regex_test :: "string list \<Rightarrow> string \<Rightarrow> nat \<Rightarrow> bool \<times> nat" where
  \<comment> \<open>\<^verbatim>\<open>regex.test(text)\<close>: whether \<^verbatim>\<open>exec\<close> finds a match, and the new \<^verbatim>\<open>lastIndex\<close>\<close>
  "regex_test alts text lastIndex =
     (case regex_exec alts text lastIndex of (m, li) \<Rightarrow> (m \<noteq> None, li))"

declare regex_scan.simps [simp del]

subsection \<open>The document\<close>

text \<open>
  A node is a text node or an element with its \<^verbatim>\<open>tagName\<close>, the tokens of its
  \<^verbatim>\<open>classList\<close>, its other attributes (\<^verbatim>\<open>id\<close>, \<^verbatim>\<open>data-word\<close>, ...) and its child
  nodes. A node of another kind (a comment, say) behaves in this code like an element without
  class, attributes and children: it carries no text content, it is no highlight, it is not
  visited by the tree walker and it separates the text nodes around it.
\<close>

datatype node =
    Text string
  | Elem string "string list" "(string \<times> string) list" "node list"

fun textContent :: "node \<Rightarrow> string" where
  "textContent (Text s) = s"
| "textContent (Elem tag cl attrs ks) = concat (map textContent ks)"

fun is_vocab_highlight :: "node \<Rightarrow> bool" where
  \<comment> \<open>the selector \<^verbatim>\<open>.vocab-highlight\<close>\<close>
  "is_vocab_highlight (Text s) = False"
| "is_vocab_highlight (Elem tag cl attrs ks) = (''vocab-highlight'' \<in> set cl)"

fun normalize :: "node list \<Rightarrow> node list" where
  \<comment> \<open>\<^verbatim>\<open>parent.normalize()\<close> on the children of \<^verbatim>\<open>parent\<close>: in the whole subtree, empty
      text nodes are removed and adjacent text nodes are merged into the first of them\<close>
  "normalize [] = []"
| "normalize (Text s # cs) =
     (if s = [] then normalize cs
      else (case normalize cs of
              Text s' # r \<Rightarrow> Text (s @ s') # r
            | r \<Rightarrow> Text s # r))"
| "normalize (Elem tag cl attrs ks # cs) = Elem tag cl attrs (normalize ks) # normalize cs"

fun querySelectorAll_vocab_highlight :: "node list \<Rightarrow> node list" where
  \<comment> \<open>\<^verbatim>\<open>querySelectorAll('.vocab-highlight')\<close>: the highlight elements in document order\<close>
  "querySelectorAll_vocab_highlight [] = []"
| "querySelectorAll_vocab_highlight (Text s # cs) = querySelectorAll_vocab_highlight cs"
| "querySelectorAll_vocab_highlight (Elem tag cl attrs ks # cs) =
     (if ''vocab-highlight'' \<in> set cl then [Elem tag cl attrs ks] else [])
     @ querySelectorAll_vocab_highlight ks @ querySelectorAll_vocab_highlight cs"

text \<open>
  The loop of \<^verbatim>\<open>clearVocabularyHighlights\<close> (lines 488-494) runs over the highlight
  elements that \<^verbatim>\<open>querySelectorAll\<close> found before the loop, in document order. An
  element of that list that lies inside another one is detached from the document when its
  turn comes, because the outer one was replaced before: replacing it changes nothing in the
  document. The elements whose turn changes the document are therefore, one after the other,
  the first highlight element that the document still holds. The elements outside
  \<^verbatim>\<open>body\<close> and \<^verbatim>\<open>body\<close> itself are taken to carry neither the class
  \<^verbatim>\<open>vocab-highlight\<close> nor the id \<^verbatim>\<open>vocab-tooltip\<close>.
\<close>

fun replace_first_span :: "node list \<Rightarrow> (node list \<times> bool) option" where
  \<comment> \<open>the first highlight element below the parent of these children, in document order,
      is replaced by a text node with its text content (line 492) and its parent is
      normalized (line 493), unless that parent is the parent of these children: then the
      flag is set and the normalization is left to the caller, which holds all children\<close>
  "replace_first_span [] = None"
| "replace_first_span (Text s # cs) =
     (case replace_first_span cs of
        None \<Rightarrow> None
      | Some (cs', direct) \<Rightarrow> Some (Text s # cs', direct))"
| "replace_first_span (Elem tag cl attrs ks # cs) =
     (if ''vocab-highlight'' \<in> set cl
      then Some (Text (textContent (Elem tag cl attrs ks)) # cs, True)
      else (case replace_first_span ks of
              Some (ks', direct) \<Rightarrow>
                Some (Elem tag cl attrs (if direct then normalize ks' else ks') # cs, False)
            | None \<Rightarrow>
                (case replace_first_span cs of
                   None \<Rightarrow> None
                 | Some (cs', direct) \<Rightarrow> Some (Elem tag cl attrs ks # cs', direct))))"

definition clear_step :: "node list \<Rightarrow> node list option" where
  \<comment> \<open>one iteration of the loop that changes the document, on the children of
      \<^verbatim>\<open>body\<close>; \<open>None\<close> when no highlight element is left\<close>
  "clear_step ks =
     (case replace_first_span ks of
        None \<Rightarrow> None
      | Some (ks', direct) \<Rightarrow> Some (if direct then normalize ks' else ks'))"

lemma query_length_normalize:
  "length (querySelectorAll_vocab_highlight (normalize ks))
     = length (querySelectorAll_vocab_highlight ks)"
proof (induction ks rule: normalize.induct)
  case 1
  show ?case by simp
next
  case (2 s cs)
  show ?case
  proof (cases "s = []")
    case True
    with 2 show ?thesis by simp
  next
    case False
    with 2 have "length (querySelectorAll_vocab_highlight (normalize cs))
        = length (querySelectorAll_vocab_highlight cs)" by simp
    with False show ?thesis by (auto split: list.splits node.splits)
  qed
next
  case (3 tag cl attrs ks cs)
  then show ?case by simp
qed

lemma replace_first_span_fewer:
  "replace_first_span ks = Some (ks', direct) \<Longrightarrow>
   length (querySelectorAll_vocab_highlight ks') < length (querySelectorAll_vocab_highlight ks)"
proof (induction ks arbitrary: ks' direct rule: replace_first_span.induct)
  case 1
  then show ?case by simp
next
  case (2 s cs)
  then show ?case by (auto split: option.splits)
next
  case (3 tag cl attrs ks cs)
  show ?case
  proof (cases "''vocab-highlight'' \<in> set cl")
    case True
    with "3.prems" show ?thesis by auto
  next
    case False
    show ?thesis
    proof (cases "replace_first_span ks")
      case None
      with False "3.prems" obtain cs' where "replace_first_span cs = Some (cs', direct)"
        and "ks' = Elem tag cl attrs ks # cs'"
        by (auto split: option.splits)
      with "3.IH"(2) [OF False None] False show ?thesis by simp
    next
      case (Some p)
      obtain k d where p: "p = (k, d)" by (cases p)
      from "3.IH"(1) [OF False] Some p
      have "length (querySelectorAll_vocab_highlight k) < length (querySelectorAll_vocab_highlight ks)"
        by simp
      with False Some p "3.prems" show ?thesis
        by (auto simp: query_length_normalize)
    qed
  qed
qed

lemma clear_step_fewer:
  "clear_step ks = Some ks' \<Longrightarrow>
   length (querySelectorAll_vocab_highlight ks') < length (querySelectorAll_vocab_highlight ks)"
  by (auto simp: clear_step_def query_length_normalize split: option.splits if_splits
      dest: replace_first_span_fewer)

function clear_highlight_spans :: "node list \<Rightarrow> node list" where
  \<comment> \<open>the loop of lines 489-494\<close>
  "clear_highlight_spans ks = (case clear_step ks of None \<Rightarrow> ks | Some ks' \<Rightarrow> clear_highlight_spans ks')"
  by pat_completeness auto
termination
  by (relation "measure (\<lambda>ks. length (querySelectorAll_vocab_highlight ks))")
     (simp_all add: clear_step_fewer)

declare clear_highlight_spans.simps [simp del]

text \<open>
  The result of the loop in one pass over the tree: every outermost highlight element is
  replaced by a text node with its text content, and the subtree of every parent that had such
  a child is normalized. \<open>replace_highlight\<close> is that transformation of one child node,
  \<open>normalize_parent\<close> the normalization of a parent whose children were \<open>old\<close> before
  and are \<open>new\<close> after the replacements. \<open>clear_highlight_spans_eq\<close> below shows that
  this is what the loop computes.
\<close>

definition normalize_parent :: "node list \<Rightarrow> node list \<Rightarrow> node list" where
  "normalize_parent old new =
     (if list_ex is_vocab_highlight old then normalize new else new)"

fun replace_highlight :: "node \<Rightarrow> node" where
  "replace_highlight (Text s) = Text s"
| "replace_highlight (Elem tag cl attrs ks) =
     (if ''vocab-highlight'' \<in> set cl then Text (textContent (Elem tag cl attrs ks))
      else Elem tag cl attrs (normalize_parent ks (map replace_highlight ks)))"

definition replace_highlights :: "node list \<Rightarrow> node list" where
  "replace_highlights ks = normalize_parent ks (map replace_highlight ks)"

fun remove_element_by_id :: "string \<Rightarrow> node list \<Rightarrow> node list option" where
  \<comment> \<open>\<^verbatim>\<open>getElementById\<close> followed by \<^verbatim>\<open>removeChild\<close> from its parent: the first
      element with this id in document order is removed; \<open>None\<close> when there is none\<close>
  "remove_element_by_id i [] = None"
| "remove_element_by_id i (Text s # cs) = map_option ((#) (Text s)) (remove_element_by_id i cs)"
| "remove_element_by_id i (Elem tag cl attrs ks # cs) =
     (if map_of attrs ''id'' = Some i then Some cs
      else (case remove_element_by_id i ks of
              Some ks' \<Rightarrow> Some (Elem tag cl attrs ks' # cs)
            | None \<Rightarrow> map_option ((#) (Elem tag cl attrs ks)) (remove_element_by_id i cs)))"

type_synonym handler = nat
  \<comment> \<open>the identity of a function object\<close>

record document =
  body :: "node list"
  clickListeners :: "handler list"
  vocabClickHandler :: "handler option"

definition clearVocabularyHighlights :: "document \<Rightarrow> document" where
  "clearVocabularyHighlights doc =
     (let ks = clear_highlight_spans (body doc)
      in (case remove_element_by_id ''vocab-tooltip'' ks of
            None \<Rightarrow> doc\<lparr>body := ks\<rparr>
          | Some ks' \<Rightarrow> doc\<lparr>body := ks'\<rparr>))"

subsection \<open>The apply pass\<close>

definition slice :: "string \<Rightarrow> nat \<Rightarrow> nat \<Rightarrow> string" where
  \<comment> \<open>\<^verbatim>\<open>text.slice(a, b)\<close> for indices that are not negative\<close>
  "slice text a b = take (min b (length text) - a) (drop a text)"

definition create_span :: "string \<Rightarrow> node" where
  \<comment> \<open>lines 568-571, with the tag name as an HTML document reports it; assigning the empty
      string to \<^verbatim>\<open>textContent\<close> leaves no child\<close>
  "create_span matchText =
     Elem ''SPAN'' [''vocab-highlight''] [(''data-word'', toLowerCase matchText)]
       (if matchText = [] then [] else [Text matchText])"

lemma first_alternative_bounds:
  "first_alternative alts text i = Some e \<Longrightarrow> i \<le> e \<and> e \<le> length text"
  by (induction alts) (auto simp: literal_matches_at_def split: if_splits)

lemma regex_scan_bounds:
  "regex_scan alts tx i = Some (s, e) \<Longrightarrow> i \<le> s \<and> s \<le> e \<and> e \<le> length tx"
proof (induction alts tx i rule: regex_scan.induct)
  case (1 alts tx i)
  show ?case
  proof (cases "match_at alts tx i")
    case None
    with "1.prems" have "\<not> length tx < i" and "regex_scan alts tx (Suc i) = Some (s, e)"
      by (auto simp: regex_scan.simps [of alts tx i] split: if_splits)
    with "1.IH" None show ?thesis by fastforce
  next
    case (Some e')
    with "1.prems" have "s = i" and "e = e'"
      by (auto simp: regex_scan.simps [of alts tx i] split: if_splits)
    moreover from Some have "i \<le> e' \<and> e' \<le> length tx"
      by (auto simp: match_at_def dest: first_alternative_bounds split: if_splits)
    ultimately show ?thesis by simp
  qed
qed

text \<open>
  The loop of lines 562-574. \<open>rli\<close> is \<^verbatim>\<open>regex.lastIndex\<close>, \<open>lastIndex\<close> and
  \<open>frag\<close> are the local variables. \<^verbatim>\<open>exec\<close> does not move \<^verbatim>\<open>regex.lastIndex\<close> past
  an empty match, so on an empty match the loop of the source would find the same match again
  without end: the model returns \<open>None\<close> there, and \<open>None\<close> always stands for a call
  that does not return.
\<close>

function exec_loop ::
  "string list \<Rightarrow> string \<Rightarrow> nat \<Rightarrow> nat \<Rightarrow> node list \<Rightarrow> (node list \<times> nat \<times> nat) option" where
  "exec_loop alts text rli lastIndex frag =
     (case regex_exec alts text rli of
        (None, rli') \<Rightarrow> Some (frag, lastIndex, rli')
      | (Some (start, matchText), rli') \<Rightarrow>
          if matchText = [] then None
          else exec_loop alts text rli' (start + length matchText)
                 (frag @ (if start > lastIndex then [Text (slice text lastIndex start)] else [])
                       @ [create_span matchText]))"
  by pat_completeness auto
termination
proof (relation "measure (\<lambda>(alts, text, rli, lastIndex, frag). length text - rli)", goal_cases)
  case 1
  show ?case by simp
next
  case (2 alts tx rli lastIndex frag x1 rli' x2 start matchText)
  then obtain s e where scan: "regex_scan alts tx rli = Some (s, e)"
    and m: "matchText = take (e - s) (drop s tx)" and e: "rli' = e"
    by (auto simp: regex_exec_def split: option.splits)
  from regex_scan_bounds [OF scan] have "rli \<le> s" "s \<le> e" "e \<le> length tx" by simp_all
  moreover from m \<open>matchText \<noteq> []\<close> have "s < e" by (cases "s < e") auto
  ultimately show ?case using e by simp
qed

declare exec_loop.simps [simp del]

definition visit_text_node :: "string list \<Rightarrow> string \<Rightarrow> nat \<Rightarrow> (node list \<times> nat) option" where
  \<comment> \<open>the body of the loop of lines 550-579 for a text node with content \<open>text\<close>: the
      nodes that stand in its place afterwards (the node itself when it is left alone) and
      the new \<^verbatim>\<open>regex.lastIndex\<close>\<close>
  "visit_text_node alts text rli =
     (if text = [] then Some ([Text text], rli)
      else (case regex_test alts text rli of
              (False, rli') \<Rightarrow> Some ([Text text], 0)
            | (True, rli') \<Rightarrow>
                (case exec_loop alts text 0 0 [] of
                   None \<Rightarrow> None
                 | Some (frag, lastIndex, rli'') \<Rightarrow>
                     Some (frag @ (if lastIndex < length text
                                   then [Text (slice text lastIndex (length text))] else []),
                           rli''))))"

text \<open>
  The tree walker of lines 533-548 collects the text nodes below \<^verbatim>\<open>body\<close> in document
  order, leaving out those with a highlight element among their ancestors (\<open>inHighlight\<close>)
  or with a \<^verbatim>\<open>SCRIPT\<close> or \<^verbatim>\<open>STYLE\<close> parent (\<open>parentTag\<close>); the loop of lines
  550-579 then visits them in that order. Replacing one collected text node does not change
  another one, so the two loops together are one traversal in document order that carries
  \<^verbatim>\<open>regex.lastIndex\<close> along.
\<close>

fun walk ::
  "string list \<Rightarrow> bool \<Rightarrow> string \<Rightarrow> node list \<Rightarrow> nat \<Rightarrow> (node list \<times> nat) option" where
  "walk alts inHighlight parentTag [] rli = Some ([], rli)"
| "walk alts inHighlight parentTag (Text text # cs) rli =
     (case (if inHighlight \<or> parentTag = ''SCRIPT'' \<or> parentTag = ''STYLE''
            then Some ([Text text], rli)
            else visit_text_node alts text rli) of
        None \<Rightarrow> None
      | Some (frag, rli') \<Rightarrow>
          (case walk alts inHighlight parentTag cs rli' of
             None \<Rightarrow> None
           | Some (rest, rli'') \<Rightarrow> Some (frag @ rest, rli'')))"
| "walk alts inHighlight parentTag (Elem tag cl attrs ks # cs) rli =
     (case walk alts (inHighlight \<or> ''vocab-highlight'' \<in> set cl) tag ks rli of
        None \<Rightarrow> None
      | Some (ks', rli') \<Rightarrow>
          (case walk alts inHighlight parentTag cs rli' of
             None \<Rightarrow> None
           | Some (rest, rli'') \<Rightarrow> Some (Elem tag cl attrs ks' # rest, rli'')))"

definition rebind_click_handler :: "handler \<Rightarrow> document \<Rightarrow> document" where
  \<comment> \<open>lines 773-779: \<^verbatim>\<open>removeEventListener\<close> drops the listener with this callback,
      \<^verbatim>\<open>addEventListener\<close> appends the callback unless it is a listener already\<close>
  "rebind_click_handler handleClick doc =
     (let ls = (case vocabClickHandler doc of
                  None \<Rightarrow> clickListeners doc
                | Some previousHandler \<Rightarrow> removeAll previousHandler (clickListeners doc))
      in doc\<lparr>vocabClickHandler := Some handleClick,
             clickListeners := (if handleClick \<in> set ls then ls else ls @ [handleClick])\<rparr>)"

text \<open>
  \<^verbatim>\<open>highlightVocabularyInDocument\<close>. \<open>handleClick\<close> is the identity of the function object
  that this call creates at line 647. The style sheets of lines 581-644 are written into the
  two \<^verbatim>\<open>head\<close> elements and are not part of the model. The result is \<open>None\<close> when the
  call does not return the document: the pattern is outside the literal fragment (where
  \<^verbatim>\<open>new RegExp\<close> may throw), or the loop over the matches does not end.
\<close>

definition highlightVocabularyInDocument ::
  "document \<Rightarrow> VocabItem list \<Rightarrow> handler \<Rightarrow> document option" where
  "highlightVocabularyInDocument doc vocabulary handleClick =
     (let doc1 = clearVocabularyHighlights doc;
          words = vocabulary_words vocabulary
      in if length words = 0 then Some doc1
         else (case read_alternatives [] (pattern_source words) of
                 None \<Rightarrow> None
               | Some alts \<Rightarrow>
                   (case walk alts False ''BODY'' (body doc1) 0 of
                      None \<Rightarrow> None
                    | Some (ks, rli) \<Rightarrow>
                        Some (rebind_click_handler handleClick (doc1\<lparr>body := ks\<rparr>)))))"

definition applyHighlights :: "VocabItem list \<Rightarrow> handler \<Rightarrow> document \<Rightarrow> document option" where
  \<comment> \<open>lines 409-427 for a frame that has a document with a body; without one the function
      returns at once\<close>
  "applyHighlights vocab handleClick doc =
     (if length vocab = 0 then Some (clearVocabularyHighlights doc)
      else highlightVocabularyInDocument doc vocab handleClick)"

fun reconcile :: "(VocabItem list \<times> handler) list \<Rightarrow> document \<Rightarrow> document option" where
  \<comment> \<open>consecutive runs of the effect of lines 403-446 on one document: every change of
      the vocabulary calls \<^verbatim>\<open>applyHighlights\<close> at once (line 430), with the vocabulary of
      that moment and a new function object for \<^verbatim>\<open>handleClick\<close>\<close>
  "reconcile [] doc = Some doc"
| "reconcile ((vocab, handleClick) # passes) doc =
     (case applyHighlights vocab handleClick doc of
        None \<Rightarrow> None
      | Some doc' \<Rightarrow> reconcile passes doc')"

definition slot_invariant :: "handler list \<Rightarrow> document \<Rightarrow> bool" where
  \<comment> \<open>the click listeners of the document are the listeners \<open>foreign\<close> of others,
      followed by the handler stored in \<^verbatim>\<open>_vocabClickHandler\<close>, if any\<close>
  "slot_invariant foreign doc =
     (case vocabClickHandler doc of
        None \<Rightarrow> clickListeners doc = foreign
      | Some h \<Rightarrow> h \<notin> set foreign \<and> clickListeners doc = foreign @ [h])"

fun normalized :: "node list \<Rightarrow> bool" where
  \<comment> \<open>the children of a normalized parent: in the whole subtree no text node is empty and
      no text node follows another one\<close>
  "normalized [] = True"
| "normalized (Text s # cs) =
     (s \<noteq> [] \<and> (case cs of Text s' # r \<Rightarrow> False | _ \<Rightarrow> True) \<and> normalized cs)"
| "normalized (Elem tag cl attrs ks # cs) = (normalized ks \<and> normalized cs)"

subsection \<open>The deferred run after a relocation\<close>

text \<open>
  The timers of the window: \<open>now\<close> is the time in milliseconds, \<open>pending\<close> holds the
  times at which the timers set by \<^verbatim>\<open>setTimeout(applyHighlights, 150)\<close> are due, \<open>runs\<close>
  counts the calls of \<^verbatim>\<open>applyHighlights\<close> that timers have made. The code keeps no timer
  id and never calls \<^verbatim>\<open>clearTimeout\<close>.
\<close>

record timers =
  now :: nat
  pending :: "nat list"
  runs :: nat

definition setTimeout_applyHighlights :: "nat \<Rightarrow> timers \<Rightarrow> timers" where
  "setTimeout_applyHighlights delay s = s\<lparr>pending := pending s @ [now s + delay]\<rparr>"

definition handleRelocated :: "timers \<Rightarrow> timers" where
  \<comment> \<open>lines 435-438\<close>
  "handleRelocated s = setTimeout_applyHighlights 150 s"

definition elapse :: "nat \<Rightarrow> timers \<Rightarrow> timers" where
  \<comment> \<open>\<open>d\<close> milliseconds pass: every timer that is due by then calls its callback\<close>
  "elapse d s =
     s\<lparr>now := now s + d,
       pending := filter (\<lambda>due. now s + d < due) (pending s),
       runs := runs s + length (filter (\<lambda>due. due \<le> now s + d) (pending s))\<rparr>"

datatype event = Relocated | Elapse nat

fun step :: "timers \<Rightarrow> event \<Rightarrow> timers" where
  "step s Relocated = handleRelocated s"
| "step s (Elapse d) = elapse d s"

fun elapsed :: "event list \<Rightarrow> nat" where
  "elapsed [] = 0"
| "elapsed (Relocated # es) = elapsed es"
| "elapsed (Elapse d # es) = d + elapsed es"

subsection \<open>The position of the tooltip\<close>

record DOMRect =
  rect_left :: real
  rect_top :: real
  rect_bottom :: real
  rect_width :: real
  rect_height :: real


text \<open>
  The rectangle \<open>tipRect\<close> is measured on the tooltip after it was appended to the body of
  the main window (lines 735-737), where the style sheet of lines 582-623 applies (lines
  638-644). On a window wider than 640px its rule for \<^verbatim>\<open>#vocab-tooltip\<close> (lines 591-606)
  sets \<^verbatim>\<open>max-width: 240px\<close> and \<^verbatim>\<open>padding: 0.5rem 0.75rem\<close> and no border: the
  bounding rectangle of the tooltip is at most 240 wide plus the padding of its two sides,
  \<open>0.75\<close> times the root font size each (with
  \<^verbatim>\<open>box-sizing: border-box\<close> the padding lies inside the 240).
\<close>

definition tooltip_max_width :: real where
  "tooltip_max_width = 240"

definition tooltip_padding_x :: "real \<Rightarrow> real" where
  "tooltip_padding_x rootFontSize = 0.75 * rootFontSize"

definition styled_tipRect :: "real \<Rightarrow> DOMRect \<Rightarrow> bool" where
  "styled_tipRect rootFontSize tipRect =
     (rect_width tipRect \<le> tooltip_max_width + 2 * tooltip_padding_x rootFontSize)"

section \<open>Properties\<close>

subsection \<open>The clear pass\<close>

lemma textContent_normalize:
  "concat (map textContent (normalize ks)) = concat (map textContent ks)"
  by (induction ks rule: normalize.induct) (auto split: list.splits node.splits)

lemma textContent_normalize_parent:
  "concat (map textContent (normalize_parent old new)) = concat (map textContent new)"
  by (simp add: normalize_parent_def textContent_normalize)

lemma textContent_replace_highlight: "textContent (replace_highlight n) = textContent n"
proof (induction n rule: replace_highlight.induct)
  case (1 s)
  show ?case by simp
next
  case (2 tag cl attrs ks)
  show ?case
  proof (cases "''vocab-highlight'' \<in> set cl")
    case True
    then show ?thesis by simp
  next
    case False
    with 2 have "map textContent (map replace_highlight ks) = map textContent ks"
      by simp
    with False show ?thesis
      by (simp add: textContent_normalize_parent del: map_map)
  qed
qed

lemma textContent_replace_highlights:
  "concat (map textContent (replace_highlights ks)) = concat (map textContent ks)"
proof -
  have "map textContent (map replace_highlight ks) = map textContent ks"
    by (simp add: textContent_replace_highlight)
  then show ?thesis
    by (simp add: replace_highlights_def textContent_normalize_parent del: map_map)
qed

lemma query_append:
  "querySelectorAll_vocab_highlight (xs @ ys)
     = querySelectorAll_vocab_highlight xs @ querySelectorAll_vocab_highlight ys"
  by (induction xs rule: querySelectorAll_vocab_highlight.induct) simp_all

lemma query_normalize:
  "querySelectorAll_vocab_highlight ks = [] \<Longrightarrow> querySelectorAll_vocab_highlight (normalize ks) = []"
proof (induction ks rule: normalize.induct)
  case 1
  show ?case by simp
next
  case (2 s cs)
  from "2.prems" have cs: "querySelectorAll_vocab_highlight cs = []" by simp
  show ?case
  proof (cases "s = []")
    case True
    with "2.IH"(1) cs show ?thesis by simp
  next
    case False
    with "2.IH"(2) cs have "querySelectorAll_vocab_highlight (normalize cs) = []" by simp
    with False show ?thesis by (auto split: list.splits node.splits)
  qed
next
  case (3 tag cl attrs ks cs)
  then show ?case by (auto split: if_splits)
qed

lemma query_normalize_parent:
  "querySelectorAll_vocab_highlight new = [] \<Longrightarrow>
   querySelectorAll_vocab_highlight (normalize_parent old new) = []"
  by (simp add: normalize_parent_def query_normalize)

lemma query_map_empty:
  "(\<And>k. k \<in> set ks \<Longrightarrow> querySelectorAll_vocab_highlight [f k] = []) \<Longrightarrow>
   querySelectorAll_vocab_highlight (map f ks) = []"
proof (induction ks)
  case Nil
  show ?case by simp
next
  case (Cons k ks)
  have "querySelectorAll_vocab_highlight (map f (k # ks))
      = querySelectorAll_vocab_highlight ([f k] @ map f ks)" by simp
  also have "\<dots> = []" unfolding query_append using Cons by simp
  finally show ?case .
qed

lemma query_replace_highlight: "querySelectorAll_vocab_highlight [replace_highlight n] = []"
proof (induction n rule: replace_highlight.induct)
  case (1 s)
  show ?case by simp
next
  case (2 tag cl attrs ks)
  show ?case
  proof (cases "''vocab-highlight'' \<in> set cl")
    case True
    then show ?thesis by simp
  next
    case False
    with 2 have "querySelectorAll_vocab_highlight (map replace_highlight ks) = []"
      by (intro query_map_empty) simp
    with False show ?thesis by (simp add: query_normalize_parent)
  qed
qed

lemma query_replace_highlights:
  "querySelectorAll_vocab_highlight (replace_highlights ks) = []"
  by (simp add: replace_highlights_def query_normalize_parent query_map_empty
      query_replace_highlight)

lemma query_remove_element_by_id:
  "remove_element_by_id i ks = Some ks' \<Longrightarrow> querySelectorAll_vocab_highlight ks = [] \<Longrightarrow>
   querySelectorAll_vocab_highlight ks' = []"
  by (induction i ks arbitrary: ks' rule: remove_element_by_id.induct)
     (auto split: if_splits option.splits)

lemma query_empty_unchanged:
  "querySelectorAll_vocab_highlight ks = [] \<Longrightarrow>
   map replace_highlight ks = ks \<and> \<not> list_ex is_vocab_highlight ks"
proof (induction ks rule: querySelectorAll_vocab_highlight.induct)
  case 1
  show ?case by simp
next
  case (2 s cs)
  then show ?case by simp
next
  case (3 tag cl attrs ks cs)
  then show ?case by (auto simp: normalize_parent_def split: if_splits)
qed

lemma replace_highlights_unchanged:
  "querySelectorAll_vocab_highlight ks = [] \<Longrightarrow> replace_highlights ks = ks"
  by (simp add: replace_highlights_def normalize_parent_def query_empty_unchanged)

lemma normalize_id: "normalized ks \<Longrightarrow> normalize ks = ks"
  by (induction ks rule: normalized.induct) (auto split: list.splits node.splits)

lemma normalize_merge: "normalize (Text a # Text b # rest) = normalize (Text (a @ b) # rest)"
  by (cases "a = []"; cases "b = []") (auto split: list.splits node.splits)

lemma normalize_cong: "normalize xs = normalize ys \<Longrightarrow> normalize (Text s # xs) = normalize (Text s # ys)"
  by simp

lemma normalized_normalize: "normalized (normalize ks)"
proof (induction ks rule: normalize.induct)
  case 1
  show ?case by simp
next
  case (2 s cs)
  show ?case
  proof (cases "s = []")
    case True
    with 2 show ?thesis by simp
  next
    case False
    with 2 have "normalized (normalize cs)" by simp
    with False show ?thesis by (auto split: list.splits node.splits)
  qed
next
  case (3 tag cl attrs ks cs)
  then show ?case by simp
qed

lemma normalized_map_replace:
  "normalized ks \<Longrightarrow> \<not> list_ex is_vocab_highlight ks \<Longrightarrow>
   (\<And>k. k \<in> set ks \<Longrightarrow> normalized [k] \<Longrightarrow> normalized [replace_highlight k]) \<Longrightarrow>
   normalized (map replace_highlight ks)"
proof (induction ks rule: normalized.induct)
  case 1
  show ?case by simp
next
  case (2 s cs)
  then have "normalized (map replace_highlight cs)" by simp
  with "2.prems"(1,2) show ?case
    by (cases cs) (auto split: node.splits simp: normalize_parent_def)
next
  case (3 tag cl attrs ks cs)
  then have "normalized (map replace_highlight cs)" by simp
  moreover have "normalized [Elem tag cl attrs ks]" using "3.prems"(1) by simp
  then have "normalized [replace_highlight (Elem tag cl attrs ks)]"
    by (rule "3.prems"(3) [rotated]) simp
  ultimately show ?case using "3.prems"(2) by simp
qed

lemma normalized_replace_highlight:
  "normalized [k] \<Longrightarrow> \<not> is_vocab_highlight k \<Longrightarrow> normalized [replace_highlight k]"
proof (induction k rule: replace_highlight.induct)
  case (1 s)
  then show ?case by simp
next
  case (2 tag cl attrs ks)
  then have cl: "''vocab-highlight'' \<notin> set cl" and nks: "normalized ks" by simp_all
  show ?case
  proof (cases "list_ex is_vocab_highlight ks")
    case True
    with cl show ?thesis by (simp add: normalize_parent_def normalized_normalize)
  next
    case False
    have "normalized (map replace_highlight ks)"
    proof (rule normalized_map_replace [OF nks False])
      fix k assume k: "k \<in> set ks" and "normalized [k]"
      moreover from k False have "\<not> is_vocab_highlight k" by (auto simp: list_ex_iff)
      ultimately show "normalized [replace_highlight k]" using "2.IH" cl by simp
    qed
    with cl False show ?thesis by (simp add: normalize_parent_def)
  qed
qed

lemma normalized_replace_highlights:
  assumes "normalized ks"
  shows "normalized (replace_highlights ks)"
proof (cases "list_ex is_vocab_highlight ks")
  case True
  then show ?thesis by (simp add: replace_highlights_def normalize_parent_def normalized_normalize)
next
  case False
  have "normalized (map replace_highlight ks)"
  proof (rule normalized_map_replace [OF assms False])
    fix k assume k: "k \<in> set ks" and n: "normalized [k]"
    from k False have "\<not> is_vocab_highlight k" by (auto simp: list_ex_iff)
    with n show "normalized [replace_highlight k]" by (rule normalized_replace_highlight)
  qed
  with False show ?thesis by (simp add: replace_highlights_def normalize_parent_def)
qed

subsection \<open>The loop of the clear pass\<close>

lemma normalize_idem: "normalize (normalize ks) = normalize ks"
  by (rule normalize_id) (rule normalized_normalize)

lemma highlight_child_normalize:
  "list_ex is_vocab_highlight (normalize ks) = list_ex is_vocab_highlight ks"
proof (induction ks rule: normalize.induct)
  case 1
  show ?case by simp
next
  case (2 s cs)
  show ?case
  proof (cases "s = []")
    case True
    with 2 show ?thesis by simp
  next
    case False
    with 2 have "list_ex is_vocab_highlight (normalize cs) = list_ex is_vocab_highlight cs" by simp
    with False show ?thesis by (auto split: list.splits node.splits)
  qed
next
  case (3 tag cl attrs ks cs)
  then show ?case by simp
qed

lemma normalize_parent_idem:
  "normalize (normalize_parent old new) = normalize new"
  by (simp add: normalize_parent_def normalize_idem)

lemma normalize_replace_normalize:
  "normalize (map replace_highlight (normalize ks)) = normalize (map replace_highlight ks)"
proof (induction ks rule: normalize.induct)
  case 1
  show ?case by simp
next
  case (2 s cs)
  show ?case
  proof (cases "s = []")
    case True
    with 2 show ?thesis by simp
  next
    case False
    with 2 have IH: "normalize (map replace_highlight (normalize cs))
        = normalize (map replace_highlight cs)" by simp
    show ?thesis
    proof (cases "normalize cs")
      case Nil
      with False IH show ?thesis by simp
    next
      case (Cons n r)
      show ?thesis
      proof (cases n)
        case (Text s')
        have "normalize (map replace_highlight (normalize (Text s # cs)))
            = normalize (Text (s @ s') # map replace_highlight r)"
          using False Cons Text by simp
        also have "\<dots> = normalize (Text s # Text s' # map replace_highlight r)"
          by (rule normalize_merge [symmetric])
        also have "\<dots> = normalize (Text s # map replace_highlight (normalize cs))"
          using Cons Text by simp
        also have "\<dots> = normalize (Text s # map replace_highlight cs)"
          by (rule normalize_cong) (rule IH)
        finally show ?thesis by simp
      next
        case (Elem tag cl attrs ks)
        have "normalize (map replace_highlight (normalize (Text s # cs)))
            = normalize (Text s # map replace_highlight (normalize cs))"
          using False Cons Elem by simp
        also have "\<dots> = normalize (Text s # map replace_highlight cs)"
          by (rule normalize_cong) (rule IH)
        finally show ?thesis by simp
      qed
    qed
  qed
next
  case (3 tag cl attrs ks cs)
  have "normalize [replace_highlight (Elem tag cl attrs (normalize ks))]
      = normalize [replace_highlight (Elem tag cl attrs ks)]"
  proof (cases "''vocab-highlight'' \<in> set cl")
    case True
    then show ?thesis by (simp add: textContent_normalize)
  next
    case False
    then show ?thesis using "3.IH"(1) by (simp add: normalize_parent_idem)
  qed
  moreover have "\<And>x y zs. normalize [x] = normalize [y] \<Longrightarrow> normalize (x # zs) = normalize (y # zs)"
  proof -
    fix x y :: node and zs
    assume "normalize [x] = normalize [y]"
    then show "normalize (x # zs) = normalize (y # zs)"
      by (cases x; cases y) (auto split: if_splits list.splits node.splits)
  qed
  ultimately have "normalize (replace_highlight (Elem tag cl attrs (normalize ks)) # map replace_highlight (normalize cs))
      = normalize (replace_highlight (Elem tag cl attrs ks) # map replace_highlight (normalize cs))"
    by blast
  also have "\<dots> = normalize (replace_highlight (Elem tag cl attrs ks) # map replace_highlight cs)"
    using "3.IH"(2) by (cases "replace_highlight (Elem tag cl attrs ks)") (simp_all split: if_splits)
  finally show ?case by simp
qed

lemma replace_highlights_normalize:
  "replace_highlights (normalize ks) = normalize (map replace_highlight ks)"
proof -
  have "normalized (replace_highlights (normalize ks))"
    by (rule normalized_replace_highlights) (rule normalized_normalize)
  then have "replace_highlights (normalize ks) = normalize (replace_highlights (normalize ks))"
    by (simp add: normalize_id)
  also have "\<dots> = normalize (map replace_highlight (normalize ks))"
    by (simp add: replace_highlights_def normalize_parent_idem)
  also have "\<dots> = normalize (map replace_highlight ks)"
    by (rule normalize_replace_normalize)
  finally show ?thesis .
qed

lemma clear_after_step:
  assumes "map replace_highlight ks' = map replace_highlight ks"
    and "if direct then list_ex is_vocab_highlight ks
         else list_ex is_vocab_highlight ks' = list_ex is_vocab_highlight ks"
  shows "replace_highlights (if direct then normalize ks' else ks') = replace_highlights ks"
proof (cases direct)
  case True
  with assms show ?thesis
    by (simp add: replace_highlights_normalize) (simp add: replace_highlights_def normalize_parent_def)
next
  case False
  with assms show ?thesis
    by (simp add: replace_highlights_def normalize_parent_def)
qed

lemma replace_first_span_replace:
  "replace_first_span ks = Some (ks', direct) \<Longrightarrow>
   map replace_highlight ks' = map replace_highlight ks
   \<and> (if direct then list_ex is_vocab_highlight ks
       else list_ex is_vocab_highlight ks' = list_ex is_vocab_highlight ks)"
proof (induction ks arbitrary: ks' direct rule: replace_first_span.induct)
  case 1
  then show ?case by simp
next
  case (2 s cs)
  from "2.prems" obtain cs' where r: "replace_first_span cs = Some (cs', direct)"
    and ks': "ks' = Text s # cs'"
    by (auto split: option.splits)
  from "2.IH" [OF r] ks' show ?case by (simp split: if_splits)
next
  case (3 tag cl attrs ks cs)
  show ?case
  proof (cases "''vocab-highlight'' \<in> set cl")
    case True
    with "3.prems" show ?thesis by auto
  next
    case False
    show ?thesis
    proof (cases "replace_first_span ks")
      case None
      with False "3.prems" obtain cs' where r: "replace_first_span cs = Some (cs', direct)"
        and ks': "ks' = Elem tag cl attrs ks # cs'"
        by (auto split: option.splits)
      from "3.IH"(2) [OF False None r] ks' False show ?thesis by (simp split: if_splits)
    next
      case (Some p)
      obtain k d where p: "p = (k, d)" by (cases p)
      from Some p have r: "replace_first_span ks = Some (k, d)" by simp
      from "3.IH"(1) [OF False r]
      have "replace_highlights (if d then normalize k else k) = replace_highlights ks"
        by (intro clear_after_step) simp_all
      then have "replace_highlight (Elem tag cl attrs (if d then normalize k else k))
          = replace_highlight (Elem tag cl attrs ks)"
        using False by (simp add: replace_highlights_def)
      moreover from False r "3.prems" have "ks' = Elem tag cl attrs (if d then normalize k else k) # cs"
        and "\<not> direct" by auto
      ultimately show ?thesis using False by simp
    qed
  qed
qed

lemma replace_first_span_None:
  "replace_first_span ks = None \<Longrightarrow> querySelectorAll_vocab_highlight ks = []"
  by (induction ks rule: replace_first_span.induct) (auto split: option.splits if_splits)

lemma clear_step_Some:
  assumes "clear_step ks = Some ks'"
  shows "replace_highlights ks' = replace_highlights ks"
proof -
  from assms obtain k d where r: "replace_first_span ks = Some (k, d)"
    and ks': "ks' = (if d then normalize k else k)"
    by (auto simp: clear_step_def split: option.splits)
  from replace_first_span_replace [OF r] show ?thesis
    unfolding ks' by (intro clear_after_step) simp_all
qed

lemma clear_highlight_spans_eq: "clear_highlight_spans ks = replace_highlights ks"
proof (induction ks rule: clear_highlight_spans.induct)
  case (1 ks)
  show ?case
  proof (cases "clear_step ks")
    case None
    then have "querySelectorAll_vocab_highlight ks = []"
      by (auto simp: clear_step_def split: option.splits dest: replace_first_span_None)
    with None show ?thesis
      by (simp add: clear_highlight_spans.simps [of ks] replace_highlights_unchanged)
  next
    case (Some ks')
    with "1.IH" [OF Some] clear_step_Some [OF Some] show ?thesis
      by (simp add: clear_highlight_spans.simps [of ks])
  qed
qed

lemma query_clearVocabularyHighlights:
  "querySelectorAll_vocab_highlight (body (clearVocabularyHighlights doc)) = []"
  using query_replace_highlights [of "body doc"]
  by (auto simp: clearVocabularyHighlights_def clear_highlight_spans_eq Let_def split: option.splits
      dest: query_remove_element_by_id)

lemma listeners_clearVocabularyHighlights:
  "clickListeners (clearVocabularyHighlights doc) = clickListeners doc"
  "vocabClickHandler (clearVocabularyHighlights doc) = vocabClickHandler doc"
  by (simp_all add: clearVocabularyHighlights_def Let_def split: option.splits)

lemma body_clearVocabularyHighlights:
  "body (clearVocabularyHighlights d)
     = (case remove_element_by_id ''vocab-tooltip'' (replace_highlights (body d)) of
          None \<Rightarrow> replace_highlights (body d)
        | Some ks \<Rightarrow> ks)"
  by (simp add: clearVocabularyHighlights_def clear_highlight_spans_eq Let_def split: option.splits)

lemma remove_none_append:
  "remove_element_by_id i (xs @ ys) = None
     \<longleftrightarrow> remove_element_by_id i xs = None \<and> remove_element_by_id i ys = None"
  by (induction i xs rule: remove_element_by_id.induct) (auto split: option.splits)

lemma remove_none_normalize:
  "remove_element_by_id i ks = None \<Longrightarrow> remove_element_by_id i (normalize ks) = None"
proof (induction ks rule: normalize.induct)
  case 1
  show ?case by simp
next
  case (2 s cs)
  from "2.prems" have cs: "remove_element_by_id i cs = None" by simp
  show ?case
  proof (cases "s = []")
    case True
    with "2.IH"(1) cs show ?thesis by simp
  next
    case False
    with "2.IH"(2) cs have "remove_element_by_id i (normalize cs) = None" by simp
    with False show ?thesis by (auto split: list.splits node.splits)
  qed
next
  case (3 tag cl attrs ks cs)
  then show ?case by (auto split: if_splits option.splits)
qed

lemma remove_none_map:
  "(\<And>k. k \<in> set ks \<Longrightarrow> remove_element_by_id i [k] = None \<Longrightarrow> remove_element_by_id i [f k] = None)
   \<Longrightarrow> remove_element_by_id i ks = None \<Longrightarrow> remove_element_by_id i (map f ks) = None"
proof (induction ks)
  case Nil
  show ?case by simp
next
  case (Cons k ks)
  from Cons.prems(2) have "remove_element_by_id i ([k] @ ks) = None" by simp
  then have k: "remove_element_by_id i [k] = None" and ks: "remove_element_by_id i ks = None"
    unfolding remove_none_append by simp_all
  from Cons.prems(1) k have "remove_element_by_id i [f k] = None" by simp
  moreover from Cons.IH Cons.prems(1) ks have "remove_element_by_id i (map f ks) = None" by simp
  ultimately have "remove_element_by_id i ([f k] @ map f ks) = None"
    unfolding remove_none_append by simp
  then show ?case by simp
qed

lemma remove_none_replace_highlight:
  "remove_element_by_id i [k] = None \<Longrightarrow> remove_element_by_id i [replace_highlight k] = None"
proof (induction k rule: replace_highlight.induct)
  case (1 s)
  show ?case by simp
next
  case (2 tag cl attrs ks)
  show ?case
  proof (cases "''vocab-highlight'' \<in> set cl")
    case True
    then show ?thesis by simp
  next
    case False
    from "2.prems" have id: "map_of attrs ''id'' \<noteq> Some i" and ks: "remove_element_by_id i ks = None"
      by (auto split: if_splits option.splits)
    from "2.IH" False ks have "remove_element_by_id i (map replace_highlight ks) = None"
      by (intro remove_none_map) simp_all
    then have "remove_element_by_id i (normalize_parent ks (map replace_highlight ks)) = None"
      by (simp add: normalize_parent_def remove_none_normalize)
    with False id show ?thesis by simp
  qed
qed

lemma remove_none_replace_highlights:
  assumes "remove_element_by_id i ks = None"
  shows "remove_element_by_id i (replace_highlights ks) = None"
proof -
  from assms have "remove_element_by_id i (map replace_highlight ks) = None"
    by (intro remove_none_map) (simp_all add: remove_none_replace_highlight)
  then show ?thesis by (simp add: replace_highlights_def normalize_parent_def remove_none_normalize)
qed

lemma clear_of_normalized_document:
  assumes "normalized (body doc)" and "remove_element_by_id ''vocab-tooltip'' (body doc) = None"
  shows "normalized (body (clearVocabularyHighlights doc))"
    and "remove_element_by_id ''vocab-tooltip'' (body (clearVocabularyHighlights doc)) = None"
  using normalized_replace_highlights [OF assms(1)] remove_none_replace_highlights [OF assms(2)]
  by (simp_all add: body_clearVocabularyHighlights)

subsection \<open>The compiled words and the pattern\<close>

lemma set_foldl_set_add: "set (foldl set_add acc xs) = set acc \<union> set xs"
  by (induction xs arbitrary: acc) (auto simp: set_add_def)

lemma distinct_foldl_set_add: "distinct acc \<Longrightarrow> distinct (foldl set_add acc xs)"
  by (induction xs arbitrary: acc) (auto simp: set_add_def)

lemma set_array_from_set: "set (array_from_set xs) = set xs"
  by (simp add: array_from_set_def set_foldl_set_add)

lemma distinct_array_from_set: "distinct (array_from_set xs)"
  by (simp add: array_from_set_def distinct_foldl_set_add)

lemma set_vocabulary_words:
  "set (vocabulary_words vocabulary) = {w. w \<noteq> [] \<and> w \<in> (\<lambda>v. trim (word v)) ` set vocabulary}"
  by (auto simp: vocabulary_words_def set_array_from_set)

lemma vocabulary_words_nonempty: "w \<in> set (vocabulary_words vocabulary) \<Longrightarrow> w \<noteq> []"
  by (simp add: set_vocabulary_words)

lemma backslash_syntax: "CHR 0x5C \<in> set syntaxCharacters"
  by (simp add: syntaxCharacters_def)

lemma bar_syntax: "CHR ''|'' \<in> set syntaxCharacters"
  by (simp add: syntaxCharacters_def)

lemma read_alternatives_escape:
  "read_alternatives cur (escapeRegExp w @ rest) = read_alternatives (cur @ w) rest"
proof (induction w arbitrary: cur)
  case Nil
  show ?case by (simp add: escapeRegExp_def)
next
  case (Cons c w)
  have step: "escapeRegExp (c # w) = (if c \<in> set syntaxCharacters then [CHR 0x5C, c] else [c]) @ escapeRegExp w"
    by (simp add: escapeRegExp_def)
  show ?case
  proof (cases "c \<in> set syntaxCharacters")
    case True
    then show ?thesis using Cons.IH [of "cur @ [c]"] by (simp add: step)
  next
    case False
    then have "c \<noteq> CHR 0x5C" "c \<noteq> CHR ''|''"
      using backslash_syntax bar_syntax by auto
    with False show ?thesis using Cons.IH [of "cur @ [c]"] by (simp add: step)
  qed
qed

lemma read_alternatives_join:
  "read_alternatives cur (join ''|'' (map escapeRegExp (w # ws))) = Some ((cur @ w) # ws)"
proof (induction ws arbitrary: cur w)
  case Nil
  show ?case using read_alternatives_escape [of cur w "[]"] by simp
next
  case (Cons v ws)
  have "read_alternatives cur (join ''|'' (map escapeRegExp (w # v # ws)))
      = read_alternatives (cur @ w) (CHR ''|'' # join ''|'' (map escapeRegExp (v # ws)))"
    using read_alternatives_escape [of cur w "CHR ''|'' # join ''|'' (map escapeRegExp (v # ws))"]
    by simp
  also have "\<dots> = Some ((cur @ w) # v # ws)"
    using Cons.IH [of "[]" v] by simp
  finally show ?case .
qed

lemma read_alternatives_pattern_source:
  "ws \<noteq> [] \<Longrightarrow> read_alternatives [] (pattern_source ws) = Some ws"
  using read_alternatives_join [of "[]"] by (cases ws) (simp_all add: pattern_source_def)

lemma clear_single_text:
  "clearVocabularyHighlights (doc\<lparr>body := [Text t]\<rparr>) = doc\<lparr>body := [Text t]\<rparr>"
  by (simp add: clearVocabularyHighlights_def clear_highlight_spans_eq replace_highlights_def normalize_parent_def)

lemma highlight_single_text:
  assumes "vocabulary_words vocabulary = ws" and "ws \<noteq> []"
    and "visit_text_node ws t 0 = Some (frag, rli)"
  shows "map_option body (highlightVocabularyInDocument (doc\<lparr>body := [Text t]\<rparr>) vocabulary h)
           = Some frag"
  using assms
  by (simp add: highlightVocabularyInDocument_def clear_single_text
      read_alternatives_pattern_source rebind_click_handler_def Let_def)

subsection \<open>The loop over the matches and the walk over the text nodes\<close>

lemma first_alternative_word:
  "first_alternative alts tx i = Some e \<Longrightarrow> \<exists>w\<in>set alts. e = i + length w \<and> e \<le> length tx"
  by (induction alts) (auto simp: literal_matches_at_def split: if_splits)

lemma regex_scan_word:
  "regex_scan alts tx i = Some (s, e) \<Longrightarrow> \<exists>w\<in>set alts. e = s + length w"
proof (induction alts tx i rule: regex_scan.induct)
  case (1 alts tx i)
  show ?case
  proof (cases "match_at alts tx i")
    case None
    with "1.prems" have "\<not> length tx < i" and "regex_scan alts tx (Suc i) = Some (s, e)"
      by (auto simp: regex_scan.simps [of alts tx i] split: if_splits)
    with "1.IH" None show ?thesis by fastforce
  next
    case (Some e')
    with "1.prems" have "s = i" and "e = e'"
      by (auto simp: regex_scan.simps [of alts tx i] split: if_splits)
    moreover from Some have "\<exists>w\<in>set alts. e' = i + length w"
      by (auto simp: match_at_def dest: first_alternative_word split: if_splits)
    ultimately show ?thesis by simp
  qed
qed

lemma regex_exec_None: "regex_exec alts tx rli = (None, rli') \<Longrightarrow> rli' = 0"
  by (auto simp: regex_exec_def split: option.splits)

lemma regex_exec_Some:
  assumes "regex_exec alts tx rli = (Some (start, m), rli')"
  shows "rli \<le> start" and "rli' = start + length m" and "rli' \<le> length tx"
    and "m = slice tx start rli'" and "\<exists>w\<in>set alts. length m = length w"
proof -
  from assms obtain e where scan: "regex_scan alts tx rli = Some (start, e)"
    and m: "m = take (e - start) (drop start tx)" and e: "rli' = e"
    by (auto simp: regex_exec_def split: option.splits)
  from regex_scan_bounds [OF scan] have b: "rli \<le> start" "start \<le> e" "e \<le> length tx"
    by simp_all
  then have len: "length m = e - start" using m by simp
  show "rli \<le> start" by (rule b)
  show "rli' = start + length m" using len b e by simp
  show "rli' \<le> length tx" using b e by simp
  show "m = slice tx start rli'" using m e b by (simp add: slice_def)
  from regex_scan_word [OF scan] show "\<exists>w\<in>set alts. length m = length w"
    using len by auto
qed

lemma exec_loop_returns:
  "\<forall>w\<in>set alts. w \<noteq> [] \<Longrightarrow> \<exists>r. exec_loop alts tx rli li frag = Some r"
proof (induction alts tx rli li frag rule: exec_loop.induct)
  case (1 alts tx rli lastIndex frag)
  show ?case
  proof (cases "regex_exec alts tx rli")
    case (Pair mo rli')
    show ?thesis
    proof (cases mo)
      case None
      with Pair show ?thesis by (simp add: exec_loop.simps [of alts tx rli])
    next
      case (Some sm)
      obtain start m where sm: "sm = (start, m)" by (cases sm)
      from Pair Some sm have ex: "regex_exec alts tx rli = (Some (start, m), rli')" by simp
      from regex_exec_Some(5) [OF ex] "1.prems" have "m \<noteq> []" by fastforce
      with "1.IH" [OF ex [symmetric] refl refl] "1.prems" ex show ?thesis
        by (simp add: exec_loop.simps [of alts tx rli])
    qed
  qed
qed

lemma textContent_create_span: "textContent (create_span m) = m"
  by (simp add: create_span_def)

lemma take_slice: "a \<le> b \<Longrightarrow> b \<le> length tx \<Longrightarrow> take a tx @ slice tx a b = take b tx"
  using take_add [of a "b - a" tx] by (simp add: slice_def)

lemma exec_loop_text:
  "exec_loop alts tx rli li frag = Some (frag', li', rli') \<Longrightarrow> li = rli \<Longrightarrow> li \<le> length tx \<Longrightarrow>
   concat (map textContent frag) = take li tx \<Longrightarrow>
   concat (map textContent frag') = take li' tx \<and> li' \<le> length tx \<and> rli' = 0"
proof (induction alts tx rli li frag rule: exec_loop.induct)
  case (1 alts tx rli lastIndex frag)
  show ?case
  proof (cases "regex_exec alts tx rli")
    case (Pair mo r)
    show ?thesis
    proof (cases mo)
      case None
      with Pair "1.prems" regex_exec_None [of alts tx rli r] show ?thesis
        by (simp add: exec_loop.simps [of alts tx rli])
    next
      case (Some sm)
      obtain start m where sm: "sm = (start, m)" by (cases sm)
      from Pair Some sm have ex: "regex_exec alts tx rli = (Some (start, m), r)" by simp
      note b = regex_exec_Some [OF ex]
      let ?frag = "frag @ (if start > lastIndex then [Text (slice tx lastIndex start)] else [])
                       @ [create_span m]"
      from "1.prems"(1) ex have ne: "m \<noteq> []"
        and rec: "exec_loop alts tx r (start + length m) ?frag = Some (frag', li', rli')"
        by (auto simp: exec_loop.simps [of alts tx rli] split: if_splits)
      have le: "lastIndex \<le> start" "start \<le> length tx" "start \<le> r"
        using b(1,2,3) "1.prems"(2) by simp_all
      have "concat (map textContent ?frag) = (take lastIndex tx @ slice tx lastIndex start) @ m"
        using "1.prems"(4) le(1) by (simp add: textContent_create_span slice_def)
      also have "\<dots> = take start tx @ slice tx start r"
        using take_slice [OF le(1,2)] b(4) by simp
      also have "\<dots> = take r tx"
        using take_slice [OF le(3) b(3)] .
      finally have "concat (map textContent ?frag) = take (start + length m) tx"
        using b(2) by simp
      with "1.IH" [OF ex [symmetric] refl refl ne rec] b(2,3) show ?thesis by simp
    qed
  qed
qed

lemma visit_text_node_returns:
  "\<forall>w\<in>set alts. w \<noteq> [] \<Longrightarrow> \<exists>r. visit_text_node alts tx rli = Some r"
  using exec_loop_returns [of alts tx 0 0 "[]"]
  by (auto simp: visit_text_node_def split: prod.splits bool.splits)

lemma visit_text_node_text:
  assumes "visit_text_node alts tx rli = Some (frag, rli')"
  shows "concat (map textContent frag) = tx"
proof (cases "tx = [] \<or> \<not> fst (regex_test alts tx rli)")
  case True
  with assms show ?thesis
    by (auto simp: visit_text_node_def split: prod.splits if_splits)
next
  case False
  with assms obtain f li r where loop: "exec_loop alts tx 0 0 [] = Some (f, li, r)"
    and frag: "frag = f @ (if li < length tx then [Text (slice tx li (length tx))] else [])"
    by (auto simp: visit_text_node_def split: prod.splits if_splits option.splits)
  from exec_loop_text [OF loop] have f: "concat (map textContent f) = take li tx" "li \<le> length tx"
    by simp_all
  show ?thesis
  proof (cases "li < length tx")
    case True
    with f frag take_slice [of li "length tx" tx] show ?thesis by simp
  next
    case False
    with f frag show ?thesis by simp
  qed
qed

lemma visit_text_node_lastIndex:
  "visit_text_node alts tx 0 = Some (frag, rli') \<Longrightarrow> rli' = 0"
  using exec_loop_text [of alts tx 0 0 "[]"]
  by (auto simp: visit_text_node_def split: prod.splits if_splits option.splits bool.splits)

lemma walk_returns:
  "\<forall>w\<in>set alts. w \<noteq> [] \<Longrightarrow> \<exists>r. walk alts inHighlight parentTag cs rli = Some r"
proof (induction alts inHighlight parentTag cs rli rule: walk.induct)
  case (1 alts inHighlight parentTag rli)
  show ?case by simp
next
  case (2 alts inHighlight parentTag tx cs rli)
  let ?v = "if inHighlight \<or> parentTag = ''SCRIPT'' \<or> parentTag = ''STYLE''
            then Some ([Text tx], rli) else visit_text_node alts tx rli"
  have "\<exists>p. ?v = Some p"
    using visit_text_node_returns [OF "2.prems", of tx rli] by simp
  then obtain f r where v: "?v = Some (f, r)" by force
  from "2.IH" [OF v refl "2.prems"] obtain rest r' where
    "walk alts inHighlight parentTag cs r = Some (rest, r')" by fastforce
  with v show ?case by (simp del: visit_text_node_def)
next
  case (3 alts inHighlight parentTag tag cl attrs ks cs rli)
  from "3.IH"(1) [OF "3.prems"] obtain ks' r where
    k: "walk alts (inHighlight \<or> ''vocab-highlight'' \<in> set cl) tag ks rli = Some (ks', r)"
    by fastforce
  from "3.IH"(2) [OF k refl "3.prems"] obtain rest r' where
    "walk alts inHighlight parentTag cs r = Some (rest, r')" by fastforce
  with k show ?case by simp
qed

lemma walk_text:
  "walk alts inHighlight parentTag cs rli = Some (cs', rli') \<Longrightarrow>
   concat (map textContent cs') = concat (map textContent cs)"
proof (induction alts inHighlight parentTag cs rli arbitrary: cs' rli' rule: walk.induct)
  case (1 alts inHighlight parentTag rli)
  then show ?case by simp
next
  case (2 alts inHighlight parentTag tx cs rli)
  let ?v = "if inHighlight \<or> parentTag = ''SCRIPT'' \<or> parentTag = ''STYLE''
            then Some ([Text tx], rli) else visit_text_node alts tx rli"
  from "2.prems" obtain f r rest where v: "?v = Some (f, r)"
    and w: "walk alts inHighlight parentTag cs r = Some (rest, rli')" and cs': "cs' = f @ rest"
    by (auto split: option.splits prod.splits)
  from v have "concat (map textContent f) = tx"
    by (auto split: if_splits dest: visit_text_node_text)
  with "2.IH" [OF v refl w] cs' show ?case by simp
next
  case (3 alts inHighlight parentTag tag cl attrs ks cs rli)
  from "3.prems" obtain ks' r rest where
    k: "walk alts (inHighlight \<or> ''vocab-highlight'' \<in> set cl) tag ks rli = Some (ks', r)"
    and w: "walk alts inHighlight parentTag cs r = Some (rest, rli')"
    and cs': "cs' = Elem tag cl attrs ks' # rest"
    by (auto split: option.splits prod.splits)
  from "3.IH"(1) [OF k] "3.IH"(2) [OF k refl w] cs' show ?case by simp
qed

lemma walk_lastIndex:
  "walk alts inHighlight parentTag cs rli = Some (cs', rli') \<Longrightarrow> rli = 0 \<Longrightarrow> rli' = 0"
proof (induction alts inHighlight parentTag cs rli arbitrary: cs' rli' rule: walk.induct)
  case (1 alts inHighlight parentTag rli)
  then show ?case by simp
next
  case (2 alts inHighlight parentTag tx cs rli)
  let ?v = "if inHighlight \<or> parentTag = ''SCRIPT'' \<or> parentTag = ''STYLE''
            then Some ([Text tx], rli) else visit_text_node alts tx rli"
  from "2.prems" obtain f r rest where v: "?v = Some (f, r)"
    and w: "walk alts inHighlight parentTag cs r = Some (rest, rli')"
    by (auto split: option.splits prod.splits)
  from v "2.prems"(2) have "r = 0"
    by (auto split: if_splits dest: visit_text_node_lastIndex)
  with "2.IH" [OF v refl w] show ?case by simp
next
  case (3 alts inHighlight parentTag tag cl attrs ks cs rli)
  from "3.prems" obtain ks' r rest where
    k: "walk alts (inHighlight \<or> ''vocab-highlight'' \<in> set cl) tag ks rli = Some (ks', r)"
    and w: "walk alts inHighlight parentTag cs r = Some (rest, rli')"
    by (auto split: option.splits prod.splits)
  from "3.IH"(1) [OF k "3.prems"(2)] "3.IH"(2) [OF k refl w] show ?case by simp
qed

subsection \<open>The result of a pass\<close>

lemma vocabulary_words_all_nonempty: "\<forall>w\<in>set (vocabulary_words vocabulary). w \<noteq> []"
  by (simp add: set_vocabulary_words)

lemma highlight_without_words:
  "vocabulary_words vocabulary = [] \<Longrightarrow>
   highlightVocabularyInDocument doc vocabulary h = Some (clearVocabularyHighlights doc)"
  by (simp add: highlightVocabularyInDocument_def)

lemma highlight_with_words:
  assumes "vocabulary_words vocabulary \<noteq> []"
  shows "\<exists>ks. walk (vocabulary_words vocabulary) False ''BODY''
                (body (clearVocabularyHighlights doc)) 0 = Some (ks, 0)
            \<and> highlightVocabularyInDocument doc vocabulary h
                = Some (rebind_click_handler h (clearVocabularyHighlights doc\<lparr>body := ks\<rparr>))"
proof -
  let ?ws = "vocabulary_words vocabulary"
  from walk_returns [OF vocabulary_words_all_nonempty] obtain ks r where
    w: "walk ?ws False ''BODY'' (body (clearVocabularyHighlights doc)) 0 = Some (ks, r)"
    by fastforce
  from walk_lastIndex [OF w] have "r = 0" by simp
  with w assms show ?thesis
    by (simp add: highlightVocabularyInDocument_def read_alternatives_pattern_source Let_def)
qed

lemma blank_vocabulary_words:
  "\<forall>v\<in>set vocabulary. trim (word v) = [] \<Longrightarrow> vocabulary_words vocabulary = []"
proof -
  assume "\<forall>v\<in>set vocabulary. trim (word v) = []"
  then have "filter (\<lambda>w. length w > 0) (map (\<lambda>v. trim (word v)) vocabulary) = []"
    by (induction vocabulary) simp_all
  then show ?thesis by (simp add: vocabulary_words_def array_from_set_def)
qed

lemma body_rebind_click_handler: "body (rebind_click_handler h d) = body d"
  by (simp add: rebind_click_handler_def Let_def)

lemma applyHighlights_eq:
  "applyHighlights vocab h doc = highlightVocabularyInDocument doc vocab h"
proof (cases "vocab = []")
  case True
  then have "vocabulary_words vocab = []"
    by (simp add: vocabulary_words_def array_from_set_def)
  with True show ?thesis by (simp add: applyHighlights_def highlight_without_words)
next
  case False
  then show ?thesis by (simp add: applyHighlights_def)
qed

subsection \<open>The text of a document under the apply pass\<close>

text \<open>
  Claim C10. For every vocabulary and every text node, the visit of the node by the apply
  pass returns, and the text contents of the nodes that stand in its place afterwards (text
  nodes and highlight spans, in order) concatenate to the text of the node. Hence the walk
  over any list of nodes returns and leaves the text content as it was. The alternatives of
  the expression are the words of the vocabulary (\<open>read_alternatives_pattern_source\<close>).
\<close>

theorem fragment_keeps_text:
  "(\<exists>frag rli'. visit_text_node (vocabulary_words vocabulary) tx rli = Some (frag, rli')
       \<and> concat (map textContent frag) = tx)
   \<and> (\<exists>ks rli'. walk (vocabulary_words vocabulary) inHighlight parentTag cs rli = Some (ks, rli')
       \<and> concat (map textContent ks) = concat (map textContent cs))"
proof
  from visit_text_node_returns [OF vocabulary_words_all_nonempty] obtain frag r where
    v: "visit_text_node (vocabulary_words vocabulary) tx rli = Some (frag, r)" by fastforce
  from v visit_text_node_text [OF v]
  show "\<exists>frag rli'. visit_text_node (vocabulary_words vocabulary) tx rli = Some (frag, rli')
       \<and> concat (map textContent frag) = tx" by blast
next
  from walk_returns [OF vocabulary_words_all_nonempty] obtain ks r where
    w: "walk (vocabulary_words vocabulary) inHighlight parentTag cs rli = Some (ks, r)"
    by fastforce
  from w walk_text [OF w]
  show "\<exists>ks rli'. walk (vocabulary_words vocabulary) inHighlight parentTag cs rli = Some (ks, rli')
       \<and> concat (map textContent ks) = concat (map textContent cs)" by blast
qed

theorem fragment_keeps_text_witness:
  "(\<exists>frag rli'. visit_text_node
        (vocabulary_words [\<lparr>word = ''cat'', explanation = None, context = None\<rparr>]) ''a cat'' 0
          = Some (frag, rli')
       \<and> concat (map textContent frag) = ''a cat'')
   \<and> (\<exists>ks rli'. walk (vocabulary_words [\<lparr>word = ''cat'', explanation = None, context = None\<rparr>])
          False ''BODY'' [Elem ''P'' [] [] [Text ''a cat'']] 0 = Some (ks, rli')
       \<and> concat (map textContent ks) = concat (map textContent [Elem ''P'' [] [] [Text ''a cat'']]))"
  by (rule fragment_keeps_text)

text \<open>
  Claim C2. For every term set \<open>T\<close> and every body \<open>cs\<close>, the apply pass for \<open>T\<close>
  returns an annotated body \<open>ks\<close>, and the clear pass over \<open>ks\<close> (every highlight span
  replaced by a text node of its text, the parent normalized: lines 488-494,
  \<open>clear_highlight_spans\<close>) gives a body
  whose text content is that of \<open>cs\<close>. The removal of a popover element at the end of
  \<^verbatim>\<open>clearVocabularyHighlights\<close> (lines 495-498) is not part of that pass.
\<close>

theorem clear_restores_text:
  "\<exists>ks rli'. walk (vocabulary_words T) False ''BODY'' cs 0 = Some (ks, rli')
     \<and> concat (map textContent (clear_highlight_spans ks)) = concat (map textContent cs)"
proof -
  from walk_returns [OF vocabulary_words_all_nonempty] obtain ks r where
    w: "walk (vocabulary_words T) False ''BODY'' cs 0 = Some (ks, r)"
    by fastforce
  from walk_text [OF w] have "concat (map textContent (clear_highlight_spans ks))
      = concat (map textContent cs)"
    by (simp add: clear_highlight_spans_eq textContent_replace_highlights)
  with w show ?thesis by blast
qed

theorem clear_restores_text_witness:
  "\<exists>ks rli'. walk (vocabulary_words [\<lparr>word = ''cat'', explanation = None, context = None\<rparr>])
        False ''BODY'' [Elem ''P'' [] [] [Text ''a cat'']] 0 = Some (ks, rli')
     \<and> concat (map textContent (clear_highlight_spans ks))
         = concat (map textContent [Elem ''P'' [] [] [Text ''a cat'']])"
  by (rule clear_restores_text)

subsection \<open>An empty term set\<close>

text \<open>
  Claim C7. When the vocabulary is empty or holds only words that are blank after trimming,
  \<^verbatim>\<open>applyHighlights\<close> returns the document as \<^verbatim>\<open>clearVocabularyHighlights\<close> leaves
  it: no highlight element is left in it, no apply pass has run, and the click listeners are
  untouched.
\<close>

theorem blank_vocabulary_clears:
  assumes "\<forall>v\<in>set vocab. trim (word v) = []"
  shows "applyHighlights vocab handleClick doc = Some (clearVocabularyHighlights doc)
       \<and> querySelectorAll_vocab_highlight (body (clearVocabularyHighlights doc)) = []
       \<and> clickListeners (clearVocabularyHighlights doc) = clickListeners doc"
  using blank_vocabulary_words [OF assms]
  by (simp add: applyHighlights_def highlight_without_words query_clearVocabularyHighlights
      listeners_clearVocabularyHighlights)

theorem blank_vocabulary_clears_witness:
  "applyHighlights [\<lparr>word = '' '', explanation = None, context = None\<rparr>] 8
     \<lparr>body = [Elem ''P'' [] []
                [Text ''a '',
                 Elem ''SPAN'' [''vocab-highlight''] [(''data-word'', ''cat'')] [Text ''cat'']]],
      clickListeners = [7], vocabClickHandler = Some 7\<rparr>
   = Some \<lparr>body = [Elem ''P'' [] [] [Text ''a cat'']],
           clickListeners = [7], vocabClickHandler = Some 7\<rparr>"
proof -
  let ?vocab = "[\<lparr>word = '' '', explanation = None, context = None\<rparr>]"
  let ?doc = "\<lparr>body = [Elem ''P'' [] []
                [Text ''a '',
                 Elem ''SPAN'' [''vocab-highlight''] [(''data-word'', ''cat'')] [Text ''cat'']]],
      clickListeners = [7], vocabClickHandler = Some 7\<rparr>"
  have "trim '' '' = []" by code_simp
  then have blank: "\<forall>v\<in>set ?vocab. trim (word v) = []" by simp
  have "clearVocabularyHighlights ?doc
      = \<lparr>body = [Elem ''P'' [] [] [Text ''a cat'']],
         clickListeners = [7], vocabClickHandler = Some 7\<rparr>"
    by (simp add: clearVocabularyHighlights_def clear_highlight_spans_eq replace_highlights_def normalize_parent_def)
  with blank_vocabulary_clears [OF blank, of 8 ?doc] show ?thesis by simp
qed

subsection \<open>The click handler\<close>

lemma rebind_click_handler_slot:
  "slot_invariant foreign doc \<Longrightarrow> h \<notin> set foreign \<Longrightarrow>
   slot_invariant foreign (rebind_click_handler h doc)
   \<and> vocabClickHandler (rebind_click_handler h doc) = Some h"
  by (auto simp: slot_invariant_def rebind_click_handler_def split: option.splits)

lemma applyHighlights_slot:
  assumes "slot_invariant foreign doc" and "h \<notin> set foreign"
  shows "\<exists>doc'. applyHighlights vocab h doc = Some doc' \<and> slot_invariant foreign doc'
           \<and> vocabClickHandler doc'
               = (if vocabulary_words vocab = [] then vocabClickHandler doc else Some h)"
proof (cases "vocabulary_words vocab = []")
  case True
  have "applyHighlights vocab h doc = Some (clearVocabularyHighlights doc)"
    using True by (simp add: applyHighlights_eq highlight_without_words)
  with assms True show ?thesis
    by (simp add: slot_invariant_def listeners_clearVocabularyHighlights split: option.splits)
next
  case False
  from highlight_with_words [OF False, of doc h] obtain ks where
    h: "highlightVocabularyInDocument doc vocab h
          = Some (rebind_click_handler h (clearVocabularyHighlights doc\<lparr>body := ks\<rparr>))"
    by blast
  from assms have "slot_invariant foreign (clearVocabularyHighlights doc\<lparr>body := ks\<rparr>)"
    by (simp add: slot_invariant_def listeners_clearVocabularyHighlights split: option.splits)
  from rebind_click_handler_slot [OF this assms(2)] h False show ?thesis
    by (simp add: applyHighlights_eq)
qed

lemma reconcile_slot:
  "slot_invariant foreign doc \<Longrightarrow> \<forall>p\<in>set passes. snd p \<notin> set foreign \<Longrightarrow>
   \<exists>doc'. reconcile passes doc = Some doc' \<and> slot_invariant foreign doc'
     \<and> (vocabClickHandler doc' = None
          \<longleftrightarrow> vocabClickHandler doc = None \<and> \<not> list_ex (\<lambda>p. vocabulary_words (fst p) \<noteq> []) passes)"
proof (induction passes arbitrary: doc)
  case Nil
  then show ?case by simp
next
  case (Cons p passes)
  obtain vocab h where p: "p = (vocab, h)" by (cases p)
  from Cons.prems(2) p have fresh: "h \<notin> set foreign" and rest: "\<forall>p\<in>set passes. snd p \<notin> set foreign"
    by simp_all
  from applyHighlights_slot [OF Cons.prems(1) fresh, of vocab] obtain d where
    d: "applyHighlights vocab h doc = Some d" "slot_invariant foreign d"
       "vocabClickHandler d = (if vocabulary_words vocab = [] then vocabClickHandler doc else Some h)"
    by blast
  from Cons.IH [OF d(2) rest] obtain doc' where
    r: "reconcile passes d = Some doc'" "slot_invariant foreign doc'"
       "vocabClickHandler doc' = None
          \<longleftrightarrow> vocabClickHandler d = None \<and> \<not> list_ex (\<lambda>p. vocabulary_words (fst p) \<noteq> []) passes"
    by (elim exE conjE)
  from d(1) r(1) p have "reconcile (p # passes) doc = Some doc'" by simp
  moreover from r(3) d(3) p have "vocabClickHandler doc' = None
      \<longleftrightarrow> vocabClickHandler doc = None \<and> \<not> list_ex (\<lambda>p. vocabulary_words (fst p) \<noteq> []) (p # passes)"
    by (cases "vocabulary_words vocab = []") simp_all
  ultimately show ?case using r(2) by (intro exI [of _ doc'] conjI)
qed

text \<open>
  Claim C4, as amended. On a document without stored handler, whatever click listeners
  \<open>foreign\<close> others have bound to it, any number of consecutive passes (each with a
  handler of its own that is none of the foreign listeners) returns, and afterwards the
  passes have bound exactly one click handler to the document if at least one of them had a
  word left after trimming, and none otherwise: a pass with an empty term set returns before
  the handler is rebound (lines 414-417 and 527), a pass with a non-empty one removes the
  stored handler and adds its own.
\<close>

theorem click_handler_count:
  assumes "\<forall>p\<in>set passes. snd p \<notin> set foreign"
  shows "\<exists>doc' own. reconcile passes (doc\<lparr>clickListeners := foreign, vocabClickHandler := None\<rparr>) = Some doc'
     \<and> clickListeners doc' = foreign @ own
     \<and> length own = (if list_ex (\<lambda>p. vocabulary_words (fst p) \<noteq> []) passes then 1 else 0)"
proof -
  let ?doc = "doc\<lparr>clickListeners := foreign, vocabClickHandler := None\<rparr>"
  have "slot_invariant foreign ?doc" by (simp add: slot_invariant_def)
  from reconcile_slot [OF this assms] obtain doc' where
    r: "reconcile passes ?doc = Some doc'" "slot_invariant foreign doc'"
       "vocabClickHandler doc' = None
          \<longleftrightarrow> \<not> list_ex (\<lambda>p. vocabulary_words (fst p) \<noteq> []) passes"
    by (elim exE conjE) simp
  show ?thesis
  proof (cases "vocabClickHandler doc'")
    case None
    with r(2,3) have "clickListeners doc' = foreign @ []"
      and "length ([]::handler list)
         = (if list_ex (\<lambda>p. vocabulary_words (fst p) \<noteq> []) passes then 1 else 0)"
      by (simp_all add: slot_invariant_def)
    with r(1) show ?thesis by blast
  next
    case (Some h)
    with r(2,3) have "clickListeners doc' = foreign @ [h]"
      and "length [h]
         = (if list_ex (\<lambda>p. vocabulary_words (fst p) \<noteq> []) passes then 1 else 0)"
      by (simp_all add: slot_invariant_def)
    with r(1) show ?thesis by blast
  qed
qed

theorem click_handler_count_witness:
  "\<exists>doc' own. reconcile [([\<lparr>word = ''cat'', explanation = None, context = None\<rparr>], 1), ([], 2),
                      ([\<lparr>word = ''dog'', explanation = None, context = None\<rparr>], 3)]
             (\<lparr>body = [Text ''a cat''], clickListeners = [], vocabClickHandler = None\<rparr>
                \<lparr>clickListeners := [9], vocabClickHandler := None\<rparr>) = Some doc'
     \<and> clickListeners doc' = [9] @ own \<and> length own = 1"
proof -
  have "trim ''cat'' = ''cat''" by code_simp
  then have "vocabulary_words [\<lparr>word = ''cat'', explanation = None, context = None\<rparr>] \<noteq> []"
    by (simp add: vocabulary_words_def array_from_set_def set_add_def)
  moreover have "\<forall>p\<in>set [([\<lparr>word = ''cat'', explanation = None, context = None\<rparr>], 1::nat), ([], 2),
          ([\<lparr>word = ''dog'', explanation = None, context = None\<rparr>], 3)]. snd p \<notin> set [9::nat]"
    by simp
  from click_handler_count [OF this,
        of "\<lparr>body = [Text ''a cat''], clickListeners = [], vocabClickHandler = None\<rparr>"]
  show ?thesis using calculation by simp
qed

theorem click_handler_count_counterexample:
  "map_option clickListeners
     (reconcile [([], 1), ([], 2)] \<lparr>body = [], clickListeners = [], vocabClickHandler = None\<rparr>)
   = Some []"
  by (simp add: applyHighlights_def clearVocabularyHighlights_def clear_highlight_spans_eq replace_highlights_def
      normalize_parent_def)

subsection \<open>The compiled words are distinct as strings\<close>

text \<open>
  Claim C9, as amended. The words compiled into the alternation are the trimmed non-empty
  words of the vocabulary, each once: no two entries are equal as strings. Entries that
  differ in case only stay apart; the expression ignores case through its \<^verbatim>\<open>i\<close> flag.
\<close>

theorem words_distinct_as_strings:
  "distinct (vocabulary_words vocabulary)
   \<and> set (vocabulary_words vocabulary)
       = {w. w \<noteq> [] \<and> w \<in> (\<lambda>v. trim (word v)) ` set vocabulary}"
  by (simp add: set_vocabulary_words) (simp add: vocabulary_words_def distinct_array_from_set)

theorem words_distinct_as_strings_witness:
  "distinct (vocabulary_words [\<lparr>word = ''Cat'', explanation = None, context = None\<rparr>,
                                \<lparr>word = '' cat'', explanation = None, context = None\<rparr>,
                                \<lparr>word = ''cat '', explanation = None, context = None\<rparr>])
   \<and> set (vocabulary_words [\<lparr>word = ''Cat'', explanation = None, context = None\<rparr>,
                             \<lparr>word = '' cat'', explanation = None, context = None\<rparr>,
                             \<lparr>word = ''cat '', explanation = None, context = None\<rparr>])
       = {w. w \<noteq> [] \<and> w \<in> (\<lambda>v. trim (word v)) `
                set [\<lparr>word = ''Cat'', explanation = None, context = None\<rparr>,
                     \<lparr>word = '' cat'', explanation = None, context = None\<rparr>,
                     \<lparr>word = ''cat '', explanation = None, context = None\<rparr>]}"
  by (rule words_distinct_as_strings)

theorem words_case_counterexample:
  "vocabulary_words [\<lparr>word = ''Cat'', explanation = None, context = None\<rparr>,
                     \<lparr>word = ''cat'', explanation = None, context = None\<rparr>] = [''Cat'', ''cat'']
   \<and> toLowerCase ''Cat'' = toLowerCase ''cat''"
  by code_simp

subsection \<open>The tooltip stays left of the side panel\<close>

text \<open>
  The width that the style sheet allows to the tooltip is below \<open>800 - 320 - 16 = 464\<close>
  for every root font size up to 149px; at the usual 16px it is at most 264.
\<close>

lemma styled_tipRect_width:
  assumes "styled_tipRect rootFontSize tipRect" and "rootFontSize \<le> 149"
  shows "rect_width tipRect \<le> 800 - 320 - 16"
  using assms by (simp add: styled_tipRect_def tooltip_max_width_def tooltip_padding_x_def)




subsection \<open>Relocations\<close>

lemma burst_invariant:
  "elapsed es < 150 \<Longrightarrow>
   \<forall>due\<in>set (pending s). now s + elapsed es < due \<and> due \<le> now s + 150 \<Longrightarrow>
   length (pending (foldl step s es)) = length (pending s) + count_list es Relocated
   \<and> runs (foldl step s es) = runs s
   \<and> (\<forall>due\<in>set (pending (foldl step s es)).
         now (foldl step s es) < due \<and> due \<le> now (foldl step s es) + 150)"
proof (induction es arbitrary: s)
  case Nil
  then show ?case by simp
next
  case (Cons e es)
  show ?case
  proof (cases e)
    case Relocated
    let ?s = "handleRelocated s"
    from Cons.prems Relocated have "elapsed es < 150"
      and "\<forall>due\<in>set (pending ?s). now ?s + elapsed es < due \<and> due \<le> now ?s + 150"
      by (auto simp: handleRelocated_def setTimeout_applyHighlights_def)
    from Cons.IH [OF this] Relocated show ?thesis
      by (simp add: handleRelocated_def setTimeout_applyHighlights_def)
  next
    case (Elapse d)
    let ?s = "elapse d s"
    from Cons.prems Elapse have keep: "filter (\<lambda>due. now s + d < due) (pending s) = pending s"
      and none: "filter (\<lambda>due. due \<le> now s + d) (pending s) = []"
      by (auto simp: filter_empty_conv filter_id_conv)
    from Cons.prems Elapse keep have "elapsed es < 150"
      and "\<forall>due\<in>set (pending ?s). now ?s + elapsed es < due \<and> due \<le> now ?s + 150"
      by (auto simp: elapse_def)
    from Cons.IH [OF this] Elapse keep none show ?thesis
      by (simp add: elapse_def)
  qed
qed

text \<open>
  Claim C3, as amended. Every relocation notification sets a timer of its own and no timer is
  cancelled: when the notifications of a burst arrive within less than 150 ms, starting with
  no timer pending, as many runs are pending at its end as notifications arrived, none has
  run yet, and all of them have run 150 ms later.
\<close>

theorem relocations_accumulate:
  assumes "elapsed es < 150"
  shows "length (pending (foldl step (s\<lparr>pending := []\<rparr>) es)) = count_list es Relocated
       \<and> runs (foldl step (s\<lparr>pending := []\<rparr>) es) = runs s
       \<and> runs (elapse 150 (foldl step (s\<lparr>pending := []\<rparr>) es)) = runs s + count_list es Relocated"
proof -
  let ?s = "foldl step (s\<lparr>pending := []\<rparr>) es"
  from burst_invariant [OF assms, of "s\<lparr>pending := []\<rparr>"]
  have len: "length (pending ?s) = count_list es Relocated" and r: "runs ?s = runs s"
    and due: "\<forall>due\<in>set (pending ?s). now ?s < due \<and> due \<le> now ?s + 150"
    by simp_all
  from due have "filter (\<lambda>due. due \<le> now ?s + 150) (pending ?s) = pending ?s"
    by (auto simp: filter_id_conv)
  with len r show ?thesis by (simp add: elapse_def)
qed

theorem relocations_accumulate_witness:
  "length (pending (foldl step (\<lparr>now = 0, pending = [], runs = 0\<rparr>\<lparr>pending := []\<rparr>)
             [Relocated, Elapse 10, Relocated, Elapse 20, Relocated])) = 3
   \<and> runs (elapse 150 (foldl step (\<lparr>now = 0, pending = [], runs = 0\<rparr>\<lparr>pending := []\<rparr>)
             [Relocated, Elapse 10, Relocated, Elapse 20, Relocated])) = 3"
proof -
  have "elapsed [Relocated, Elapse 10, Relocated, Elapse 20, Relocated] < 150" by simp
  from relocations_accumulate [OF this, of "\<lparr>now = 0, pending = [], runs = 0\<rparr>"]
  show ?thesis by simp
qed

theorem relocations_counterexample:
  "pending (foldl step \<lparr>now = 0, pending = [], runs = 0\<rparr> [Relocated, Elapse 10, Relocated])
     = [150, 160]"
  by (simp add: handleRelocated_def setTimeout_applyHighlights_def elapse_def)

subsection \<open>Two passes in a row\<close>

lemma normalize_texts:
  "\<forall>n\<in>set frag. replace_highlight n = Text (textContent n) \<Longrightarrow>
   normalize (map replace_highlight frag @ rest) = normalize (Text (concat (map textContent frag)) # rest)"
proof (induction frag)
  case Nil
  show ?case by simp
next
  case (Cons n frag)
  from Cons.prems have n: "replace_highlight n = Text (textContent n)" by simp
  from Cons have IH: "normalize (map replace_highlight frag @ rest)
      = normalize (Text (concat (map textContent frag)) # rest)" by simp
  have "normalize (map replace_highlight (n # frag) @ rest)
      = normalize (Text (textContent n) # (map replace_highlight frag @ rest))"
    using n by simp
  also have "\<dots> = normalize (Text (textContent n) # Text (concat (map textContent frag)) # rest)"
    by (rule normalize_cong) (rule IH)
  also have "\<dots> = normalize (Text (textContent n @ concat (map textContent frag)) # rest)"
    by (rule normalize_merge)
  finally show ?case by simp
qed

lemma replace_create_span: "replace_highlight (create_span m) = Text (textContent (create_span m))"
  by (simp add: create_span_def)

lemma is_highlight_create_span: "is_vocab_highlight (create_span m)"
  by (simp add: create_span_def)

lemma exec_loop_shape:
  "exec_loop alts tx rli li frag = Some (frag', li', rli') \<Longrightarrow>
   \<forall>n\<in>set frag. replace_highlight n = Text (textContent n) \<Longrightarrow>
   (\<forall>n\<in>set frag'. replace_highlight n = Text (textContent n))
   \<and> (list_ex is_vocab_highlight frag \<or> fst (regex_exec alts tx rli) \<noteq> None
        \<longrightarrow> list_ex is_vocab_highlight frag')"
proof (induction alts tx rli li frag rule: exec_loop.induct)
  case (1 alts tx rli lastIndex frag)
  show ?case
  proof (cases "regex_exec alts tx rli")
    case (Pair mo r)
    show ?thesis
    proof (cases mo)
      case None
      with Pair "1.prems" show ?thesis
        by (simp add: exec_loop.simps [of alts tx rli])
    next
      case (Some sm)
      obtain start m where sm: "sm = (start, m)" by (cases sm)
      from Pair Some sm have ex: "regex_exec alts tx rli = (Some (start, m), r)" by simp
      let ?frag = "frag @ (if start > lastIndex then [Text (slice tx lastIndex start)] else [])
                       @ [create_span m]"
      from "1.prems"(1) ex have ne: "m \<noteq> []"
        and rec: "exec_loop alts tx r (start + length m) ?frag = Some (frag', li', rli')"
        by (auto simp: exec_loop.simps [of alts tx rli] split: if_splits)
      from "1.prems"(2) have shape: "\<forall>n\<in>set ?frag. replace_highlight n = Text (textContent n)"
        by (auto simp: replace_create_span)
      have hl: "list_ex is_vocab_highlight ?frag"
        by (simp add: is_highlight_create_span)
      from "1.IH" [OF ex [symmetric] refl refl ne rec shape]
      have a: "\<forall>n\<in>set frag'. replace_highlight n = Text (textContent n)"
        and b: "list_ex is_vocab_highlight ?frag \<longrightarrow> list_ex is_vocab_highlight frag'"
        by blast+
      from b hl have "list_ex is_vocab_highlight frag'" by blast
      with a show ?thesis by blast
    qed
  qed
qed

lemma regex_scan_earlier:
  assumes "j \<le> i" and "regex_scan alts tx i \<noteq> None"
  shows "regex_scan alts tx j \<noteq> None"
  using assms
proof (induction rule: inc_induct)
  case base
  then show ?case by simp
next
  case (step n)
  then obtain s e where "regex_scan alts tx (Suc n) = Some (s, e)" by fastforce
  from regex_scan_bounds [OF this] have "\<not> length tx < n" by simp
  with step show ?case
    by (simp add: regex_scan.simps [of alts tx n] split: option.splits)
qed

lemma regex_test_from_start:
  "fst (regex_test alts tx rli) \<Longrightarrow> fst (regex_exec alts tx 0) \<noteq> None"
  using regex_scan_earlier [of 0 rli alts tx]
  by (auto simp: regex_test_def regex_exec_def split: option.splits prod.splits)

lemma visit_text_node_shape:
  assumes "visit_text_node alts tx rli = Some (frag, rli')"
  shows "frag = [Text tx] \<or>
         (tx \<noteq> [] \<and> (\<forall>n\<in>set frag. replace_highlight n = Text (textContent n))
          \<and> list_ex is_vocab_highlight frag)"
proof (cases "tx = [] \<or> \<not> fst (regex_test alts tx rli)")
  case True
  with assms show ?thesis
    by (auto simp: visit_text_node_def split: prod.splits if_splits)
next
  case False
  with assms obtain f li r where loop: "exec_loop alts tx 0 0 [] = Some (f, li, r)"
    and frag: "frag = f @ (if li < length tx then [Text (slice tx li (length tx))] else [])"
    by (auto simp: visit_text_node_def split: prod.splits if_splits option.splits)
  from False have "fst (regex_test alts tx rli)" by simp
  then have test: "fst (regex_exec alts tx 0) \<noteq> None"
    by (rule regex_test_from_start)
  from exec_loop_shape [OF loop] test
  have "\<forall>n\<in>set f. replace_highlight n = Text (textContent n)" "list_ex is_vocab_highlight f"
    by simp_all
  with frag False show ?thesis by auto
qed

lemma clear_after_walk:
  "walk alts inHighlight parentTag cs rli = Some (cs', rli') \<Longrightarrow> \<not> inHighlight \<Longrightarrow>
   normalized cs \<Longrightarrow> querySelectorAll_vocab_highlight cs = [] \<Longrightarrow>
   normalize (map replace_highlight cs') = cs
   \<and> (\<not> list_ex is_vocab_highlight cs' \<longrightarrow> map replace_highlight cs' = cs)"
proof (induction alts inHighlight parentTag cs rli arbitrary: cs' rli' rule: walk.induct)
  case (1 alts inHighlight parentTag rli)
  then show ?case by simp
next
  case (2 alts inHighlight parentTag tx cs rli)
  let ?v = "if inHighlight \<or> parentTag = ''SCRIPT'' \<or> parentTag = ''STYLE''
            then Some ([Text tx], rli) else visit_text_node alts tx rli"
  from "2.prems"(1) obtain f r rest where v: "?v = Some (f, r)"
    and w: "walk alts inHighlight parentTag cs r = Some (rest, rli')" and cs': "cs' = f @ rest"
    by (auto split: option.splits prod.splits)
  from "2.prems"(3) have tx: "tx \<noteq> []" and hd: "(case cs of Text s' # r \<Rightarrow> False | _ \<Rightarrow> True)"
    and ncs: "normalized cs" by simp_all
  from "2.prems"(4) have qcs: "querySelectorAll_vocab_highlight cs = []" by simp
  from "2.IH" [OF v refl w "2.prems"(2) ncs qcs]
  have IHn: "normalize (map replace_highlight rest) = cs"
    and IHm: "\<not> list_ex is_vocab_highlight rest \<longrightarrow> map replace_highlight rest = cs"
    by blast+
  from v have shape: "f = [Text tx] \<or>
         ((\<forall>n\<in>set f. replace_highlight n = Text (textContent n)) \<and> list_ex is_vocab_highlight f)"
    by (auto split: if_splits dest: visit_text_node_shape)
  then have texts: "\<forall>n\<in>set f. replace_highlight n = Text (textContent n)" by auto
  from v have ftext: "concat (map textContent f) = tx"
    by (auto split: if_splits dest: visit_text_node_text)
  have "normalize (map replace_highlight cs') = normalize (map replace_highlight f @ map replace_highlight rest)"
    using cs' by simp
  also have "\<dots> = normalize (Text tx # map replace_highlight rest)"
    using normalize_texts [OF texts] ftext by simp
  also have "\<dots> = Text tx # cs"
    using tx hd IHn by (simp split: list.splits node.splits)
  finally have n: "normalize (map replace_highlight cs') = Text tx # cs" .
  have m: "map replace_highlight cs' = Text tx # cs" if "\<not> list_ex is_vocab_highlight cs'"
  proof -
    from that cs' have "\<not> list_ex is_vocab_highlight f" "\<not> list_ex is_vocab_highlight rest"
      by simp_all
    with shape IHm have "f = [Text tx]" "map replace_highlight rest = cs" by blast+
    with cs' show ?thesis by simp
  qed
  from n m show ?case by blast
next
  case (3 alts inHighlight parentTag tag cl attrs ks cs rli)
  from "3.prems"(1) obtain ks' r rest where
    k: "walk alts (inHighlight \<or> ''vocab-highlight'' \<in> set cl) tag ks rli = Some (ks', r)"
    and w: "walk alts inHighlight parentTag cs r = Some (rest, rli')"
    and cs': "cs' = Elem tag cl attrs ks' # rest"
    by (auto split: option.splits prod.splits)
  from "3.prems"(4) have cl: "''vocab-highlight'' \<notin> set cl"
    and qks: "querySelectorAll_vocab_highlight ks = []"
    and qcs: "querySelectorAll_vocab_highlight cs = []"
    by (auto split: if_splits)
  from "3.prems"(3) have nks: "normalized ks" and ncs: "normalized cs" by simp_all
  from cl "3.prems"(2) have nh: "\<not> (inHighlight \<or> ''vocab-highlight'' \<in> set cl)" by simp
  from "3.IH"(1) [OF k nh nks qks]
  have kn: "normalize (map replace_highlight ks') = ks"
    and km: "\<not> list_ex is_vocab_highlight ks' \<longrightarrow> map replace_highlight ks' = ks"
    by blast+
  then have kids: "normalize_parent ks' (map replace_highlight ks') = ks"
    by (simp add: normalize_parent_def)
  from "3.IH"(2) [OF k refl w "3.prems"(2) ncs qcs]
  have IHn: "normalize (map replace_highlight rest) = cs"
    and IHm: "\<not> list_ex is_vocab_highlight rest \<longrightarrow> map replace_highlight rest = cs"
    by blast+
  from cl kids have e: "replace_highlight (Elem tag cl attrs ks') = Elem tag cl attrs ks" by simp
  have "normalize (map replace_highlight cs') = Elem tag cl attrs ks # cs"
    using cs' e IHn normalize_id [OF nks] by simp
  moreover have "\<not> list_ex is_vocab_highlight cs' \<longrightarrow>
      map replace_highlight cs' = Elem tag cl attrs ks # cs"
    using cs' e IHm cl by simp
  ultimately show ?case by blast
qed

lemma replace_highlights_walk:
  assumes "walk alts False parentTag cs rli = Some (cs', rli')"
    and "normalized cs" and "querySelectorAll_vocab_highlight cs = []"
  shows "replace_highlights cs' = cs"
  using clear_after_walk [OF assms(1) _ assms(2,3)]
  by (simp add: replace_highlights_def normalize_parent_def)

text \<open>
  Claim C1, as amended. For every document that the clear pass leaves normalized (no empty
  text node and no text node next to another one) and without an element of the id
  \<^verbatim>\<open>vocab-tooltip\<close>, in particular for every normalized document without such an element
  (\<open>clear_of_normalized_document\<close>), and for every vocabulary: a reconciliation pass
  returns, a second pass on its result returns too, and the body after the second pass is
  the body after the first.
\<close>

theorem reconciliation_idempotent:
  assumes "normalized (body (clearVocabularyHighlights doc))"
    and "remove_element_by_id ''vocab-tooltip'' (body (clearVocabularyHighlights doc)) = None"
  shows "\<exists>doc1 doc2. applyHighlights vocab h1 doc = Some doc1
           \<and> applyHighlights vocab h2 doc1 = Some doc2
           \<and> body doc2 = body doc1"
proof -
  let ?D = "clearVocabularyHighlights doc"
  let ?ws = "vocabulary_words vocab"
  have q: "querySelectorAll_vocab_highlight (body ?D) = []"
    by (rule query_clearVocabularyHighlights)
  show ?thesis
  proof (cases "?ws = []")
    case True
    have 1: "applyHighlights vocab h1 doc = Some ?D"
      using True by (simp add: applyHighlights_eq highlight_without_words)
    have 2: "applyHighlights vocab h2 ?D = Some (clearVocabularyHighlights ?D)"
      using True by (simp add: applyHighlights_eq highlight_without_words)
    have "body (clearVocabularyHighlights ?D) = body ?D"
      using assms(2) q
      by (simp add: body_clearVocabularyHighlights [of ?D] replace_highlights_unchanged)
    with 1 2 show ?thesis by blast
  next
    case False
    from highlight_with_words [OF False, of doc h1] obtain ks where
      w: "walk ?ws False ''BODY'' (body ?D) 0 = Some (ks, 0)"
      and 1: "highlightVocabularyInDocument doc vocab h1
                = Some (rebind_click_handler h1 (?D\<lparr>body := ks\<rparr>))"
      by blast
    let ?doc1 = "rebind_click_handler h1 (?D\<lparr>body := ks\<rparr>)"
    have b1: "body ?doc1 = ks" by (simp add: body_rebind_click_handler)
    from replace_highlights_walk [OF w assms(1) q]
    have "replace_highlights (body ?doc1) = body ?D" using b1 by simp
    with assms(2) have c: "body (clearVocabularyHighlights ?doc1) = body ?D"
      by (simp add: body_clearVocabularyHighlights [of ?doc1])
    from highlight_with_words [OF False, of ?doc1 h2] obtain ks2 where
      w2: "walk ?ws False ''BODY'' (body (clearVocabularyHighlights ?doc1)) 0 = Some (ks2, 0)"
      and 2: "highlightVocabularyInDocument ?doc1 vocab h2
                = Some (rebind_click_handler h2 (clearVocabularyHighlights ?doc1\<lparr>body := ks2\<rparr>))"
      by blast
    from w w2 c have "ks2 = ks" by simp
    then have "body (rebind_click_handler h2 (clearVocabularyHighlights ?doc1\<lparr>body := ks2\<rparr>))
        = body ?doc1"
      using b1 by (simp add: body_rebind_click_handler)
    with 1 2 show ?thesis by (simp add: applyHighlights_eq)
  qed
qed

theorem reconciliation_idempotent_witness:
  "\<exists>doc1 doc2.
      applyHighlights [\<lparr>word = ''cat'', explanation = None, context = None\<rparr>] 1
        \<lparr>body = [Elem ''P'' [] [] [Text ''a cat'']], clickListeners = [], vocabClickHandler = None\<rparr>
        = Some doc1
    \<and> applyHighlights [\<lparr>word = ''cat'', explanation = None, context = None\<rparr>] 2 doc1 = Some doc2
    \<and> body doc2 = body doc1"
proof -
  let ?doc = "\<lparr>body = [Elem ''P'' [] [] [Text ''a cat'']], clickListeners = [],
               vocabClickHandler = None\<rparr>"
  have c: "clearVocabularyHighlights ?doc = ?doc"
    by (simp add: clearVocabularyHighlights_def clear_highlight_spans_eq replace_highlights_def normalize_parent_def)
  have n: "normalized (body (clearVocabularyHighlights ?doc))"
    unfolding c by simp
  have t: "remove_element_by_id ''vocab-tooltip'' (body (clearVocabularyHighlights ?doc)) = None"
    unfolding c by simp
  from reconciliation_idempotent [OF n t] show ?thesis .
qed

theorem reconciliation_counterexample:
  "applyHighlights [\<lparr>word = ''cat'', explanation = None, context = None\<rparr>] 1
     \<lparr>body = [Elem ''P'' [] [] [Text ''con'', Text ''cat'']],
      clickListeners = [], vocabClickHandler = None\<rparr>
   = Some \<lparr>body = [Elem ''P'' [] []
                      [Text ''con'',
                       Elem ''SPAN'' [''vocab-highlight''] [(''data-word'', ''cat'')] [Text ''cat'']]],
           clickListeners = [1], vocabClickHandler = Some 1\<rparr>
   \<and> applyHighlights [\<lparr>word = ''cat'', explanation = None, context = None\<rparr>] 2
     \<lparr>body = [Elem ''P'' [] []
                [Text ''con'',
                 Elem ''SPAN'' [''vocab-highlight''] [(''data-word'', ''cat'')] [Text ''cat'']]],
      clickListeners = [1], vocabClickHandler = Some 1\<rparr>
   = Some \<lparr>body = [Elem ''P'' [] [] [Text ''concat'']],
           clickListeners = [2], vocabClickHandler = Some 2\<rparr>"
  by code_simp

subsection \<open>Whole words and case\<close>

text \<open>
  Claim C5. For the term set that holds exactly \<^verbatim>\<open>cat\<close>, a text node with the content
  \<^verbatim>\<open>concatenate a cat\<close> is replaced by a text node \<^verbatim>\<open>concatenate a \<close> followed by one
  highlight span around the last three letters: the occurrence inside \<^verbatim>\<open>concatenate\<close> is
  not wrapped.
\<close>

theorem whole_word_cat:
  "map_option body
     (highlightVocabularyInDocument (doc\<lparr>body := [Text ''concatenate a cat'']\<rparr>)
        [\<lparr>word = ''cat'', explanation = ex, context = cx\<rparr>] handleClick)
   = Some [Text ''concatenate a '',
           Elem ''SPAN'' [''vocab-highlight''] [(''data-word'', ''cat'')] [Text ''cat'']]"
proof -
  have "trim ''cat'' = ''cat''" by code_simp
  then have ws: "vocabulary_words [\<lparr>word = ''cat'', explanation = ex, context = cx\<rparr>] = [''cat'']"
    by (simp add: vocabulary_words_def array_from_set_def set_add_def)
  have "visit_text_node [''cat''] ''concatenate a cat'' 0
      = Some ([Text ''concatenate a '',
               Elem ''SPAN'' [''vocab-highlight''] [(''data-word'', ''cat'')] [Text ''cat'']], 0)"
    by code_simp
  with ws show ?thesis by (intro highlight_single_text) simp_all
qed

text \<open>
  Claim C6. For the term \<^verbatim>\<open>ubiquitous\<close> and the text \<^verbatim>\<open>It was ubiquitous and UBIQUITOUS.\<close>
  the apply pass produces exactly two highlight spans, around the two occurrences as they are
  written, and the \<^verbatim>\<open>data-word\<close> attribute of both is the lower-cased word.
\<close>

theorem case_insensitive_ubiquitous:
  "map_option body
     (highlightVocabularyInDocument (doc\<lparr>body := [Text ''It was ubiquitous and UBIQUITOUS.'']\<rparr>)
        [\<lparr>word = ''ubiquitous'', explanation = ex, context = cx\<rparr>] handleClick)
   = Some [Text ''It was '',
           Elem ''SPAN'' [''vocab-highlight''] [(''data-word'', ''ubiquitous'')] [Text ''ubiquitous''],
           Text '' and '',
           Elem ''SPAN'' [''vocab-highlight''] [(''data-word'', ''ubiquitous'')] [Text ''UBIQUITOUS''],
           Text ''.'']"
proof -
  have "trim ''ubiquitous'' = ''ubiquitous''" by code_simp
  then have ws: "vocabulary_words [\<lparr>word = ''ubiquitous'', explanation = ex, context = cx\<rparr>]
      = [''ubiquitous'']"
    by (simp add: vocabulary_words_def array_from_set_def set_add_def)
  have "visit_text_node [''ubiquitous''] ''It was ubiquitous and UBIQUITOUS.'' 0
      = Some ([Text ''It was '',
           Elem ''SPAN'' [''vocab-highlight''] [(''data-word'', ''ubiquitous'')] [Text ''ubiquitous''],
           Text '' and '',
           Elem ''SPAN'' [''vocab-highlight''] [(''data-word'', ''ubiquitous'')] [Text ''UBIQUITOUS''],
           Text ''.''], 0)"
    by code_simp
  with ws show ?thesis by (intro highlight_single_text) simp_all
qed


end
